theory Spec2Isabelle
  imports Main
begin

section \<open>Data model (src/types/index.ts)\<close>

text \<open>
  The library captures log entries, keeps them in an IndexedDB object store and relays
  them to a server. This theory embeds the TypeScript sources: the storage class
  \<^verbatim>\<open>IndexedDBStorage\<close>, the sink \<^verbatim>\<open>LogUploader\<close>, the coordinator
  \<^verbatim>\<open>UploadManager\<close>, the \<^verbatim>\<open>IdleDetector\<close>, the \<^verbatim>\<open>CleanupManager\<close> and the
  facade \<^verbatim>\<open>Logger\<close>.

  Conventions. JavaScript numbers that hold integers (timestamps, day counts, batch
  sizes, loop indices) are \<open>int\<close>. A rejected promise or a thrown exception is the
  \<open>Inl\<close> branch of a sum. What the platform decides (whether \<^verbatim>\<open>indexedDB.open\<close>
  succeeds, what \<^verbatim>\<open>fetch\<close> answers, \<^verbatim>\<open>Date.now()\<close>, the random id) is an explicit
  input.
\<close>

datatype LogLevel = Info | Warn | Error | Debug | Trace

datatype UploadStrategy = Idle | Immediate

text \<open>
  \<^verbatim>\<open>LogEntry\<close>. The field \<^verbatim>\<open>id\<close> is called \<open>log_id\<close> here (\<open>id\<close> is the identity
  function of HOL); \<^verbatim>\<open>data: Record<string, any>\<close> is kept as a list of key/value
  strings, no operation of the library looks inside it.
\<close>

record LogEntry =
  log_id :: string
  level :: LogLevel
  title :: string
  data :: "(string \<times> string) list"
  timestamp :: int
  uploaded :: bool

datatype error =
    FailedToOpenIndexedDB     \<comment> \<open>\<^verbatim>\<open>new Error('Failed to open IndexedDB')\<close>\<close>
  | DatabaseNotInitialized    \<comment> \<open>\<^verbatim>\<open>new Error('Database not initialized')\<close>\<close>
  | FailedToSaveLog           \<comment> \<open>\<^verbatim>\<open>new Error('Failed to save log')\<close>\<close>

section \<open>IndexedDBStorage (src/storage/indexedDB.ts)\<close>

text \<open>
  The state of the storage object and of the object store \<^verbatim>\<open>logs\<close> behind it:
  \<open>db\<close> tells whether \<^verbatim>\<open>this.db\<close> is non-null, \<open>rows\<close> are the records of the object
  store. The object store has \<^verbatim>\<open>keyPath: 'id'\<close>; \<open>rows\<close> lists its records in the
  order \<^verbatim>\<open>getAll()\<close> returns them, which is the order of their keys.

  The \<^verbatim>\<open>onerror\<close> handlers of \<^verbatim>\<open>getAll\<close>, \<^verbatim>\<open>get\<close>, \<^verbatim>\<open>put\<close>, \<^verbatim>\<open>openCursor\<close> and
  \<^verbatim>\<open>clear\<close> fire only when the platform fails a request; the model has the
  requests succeed. \<^verbatim>\<open>add\<close> fails on a key that is already present, and
  \<^verbatim>\<open>indexedDB.open\<close> fails when the platform says so.
\<close>

record IndexedDBStorage =
  db :: bool
  rows :: "LogEntry list"

text \<open>Requests on the object store: \<^verbatim>\<open>get\<close>, \<^verbatim>\<open>put\<close>, \<^verbatim>\<open>delete\<close> by primary key.\<close>

definition store_get :: "string \<Rightarrow> LogEntry list \<Rightarrow> LogEntry option" where
  "store_get k rs = find (\<lambda>r. log_id r = k) rs"

fun store_put :: "LogEntry \<Rightarrow> LogEntry list \<Rightarrow> LogEntry list" where
  "store_put l [] = [l]"
| "store_put l (r # rs) = (if log_id r = log_id l then l # rs else r # store_put l rs)"

definition store_delete :: "string \<Rightarrow> LogEntry list \<Rightarrow> LogEntry list" where
  "store_delete k rs = filter (\<lambda>r. log_id r \<noteq> k) rs"

text \<open>
  The keys are strings, which an object store orders by their code units, a proper
  prefix before its extensions. A record added under a new key takes its place in
  this order: before the first record with a greater key.
\<close>

fun key_less :: "string \<Rightarrow> string \<Rightarrow> bool" where
  "key_less [] [] = False"
| "key_less [] (d # ds) = True"
| "key_less (c # cs) [] = False"
| "key_less (c # cs) (d # ds) = ((of_char c :: nat) < of_char d \<or> (c = d \<and> key_less cs ds))"

fun key_insert :: "LogEntry \<Rightarrow> LogEntry list \<Rightarrow> LogEntry list" where
  "key_insert log [] = [log]"
| "key_insert log (r # rs) =
     (if key_less (log_id log) (log_id r) then log # r # rs else r # key_insert log rs)"

text \<open>Primary keys are unique in an object store.\<close>

definition unique_keys :: "IndexedDBStorage \<Rightarrow> bool" where
  "unique_keys S = distinct (map log_id (rows S))"

text \<open>\<^verbatim>\<open>init()\<close>: the argument says whether \<^verbatim>\<open>indexedDB.open\<close> succeeds.\<close>

definition storage_init :: "bool \<Rightarrow> IndexedDBStorage \<Rightarrow> (error + unit) \<times> IndexedDBStorage" where
  "storage_init opens S =
     (if opens then (Inr (), S\<lparr>db := True\<rparr>) else (Inl FailedToOpenIndexedDB, S))"

definition saveLog :: "LogEntry \<Rightarrow> IndexedDBStorage \<Rightarrow> (error + unit) \<times> IndexedDBStorage" where
  "saveLog log S =
     (if \<not> db S then (Inl DatabaseNotInitialized, S)
      else if log_id log \<in> set (map log_id (rows S)) then (Inl FailedToSaveLog, S)
      else (Inr (), S\<lparr>rows := key_insert log (rows S)\<rparr>))"

definition getUnuploadedLogs :: "IndexedDBStorage \<Rightarrow> error + LogEntry list" where
  "getUnuploadedLogs S =
     (if \<not> db S then Inl DatabaseNotInitialized
      else Inr (filter (\<lambda>log. \<not> uploaded log) (rows S)))"

definition getAllLogs :: "IndexedDBStorage \<Rightarrow> error + LogEntry list" where
  "getAllLogs S = (if \<not> db S then Inl DatabaseNotInitialized else Inr (rows S))"

definition clearAllLogs :: "IndexedDBStorage \<Rightarrow> (error + unit) \<times> IndexedDBStorage" where
  "clearAllLogs S =
     (if \<not> db S then (Inl DatabaseNotInitialized, S) else (Inr (), S\<lparr>rows := []\<rparr>))"

text \<open>
  \<^verbatim>\<open>markAsUploaded(logIds)\<close>. \<^verbatim>\<open>forEach\<close> places one \<^verbatim>\<open>get\<close> request per id before any
  \<^verbatim>\<open>onsuccess\<close> handler runs, so every \<^verbatim>\<open>get\<close> reads the store as it was; each handler
  that finds a record sets \<^verbatim>\<open>uploaded = true\<close> on it and places a \<^verbatim>\<open>put\<close>. A \<^verbatim>\<open>get\<close>
  that finds nothing only counts as completed.
\<close>

definition markAsUploaded :: "string list \<Rightarrow> IndexedDBStorage \<Rightarrow> (error + unit) \<times> IndexedDBStorage" where
  "markAsUploaded logIds S =
     (if \<not> db S \<or> logIds = [] then (Inr (), S)
      else
        let found = map (\<lambda>i. store_get i (rows S)) logIds;
            puts = List.map_filter (map_option (\<lambda>log. log\<lparr>uploaded := True\<rparr>)) found
        in (Inr (), S\<lparr>rows := foldl (\<lambda>rs log. store_put log rs) (rows S) puts\<rparr>))"

text \<open>
  \<^verbatim>\<open>cleanupExpiredLogs(expirationDays)\<close>; \<open>now\<close> is \<^verbatim>\<open>Date.now()\<close>. The cursor is opened
  on the index \<^verbatim>\<open>timestamp\<close> with \<^verbatim>\<open>IDBKeyRange.upperBound(expirationTime)\<close>, a range
  that is closed at its upper bound; it visits the records of the range in index order,
  and each visit deletes the record under the cursor and continues.
\<close>

fun cursor_walk :: "LogEntry list \<Rightarrow> LogEntry list \<Rightarrow> LogEntry list" where
  "cursor_walk [] rs = rs"
| "cursor_walk (c # cs) rs = cursor_walk cs (store_delete (log_id c) rs)"

definition cleanupExpiredLogs :: "int \<Rightarrow> int \<Rightarrow> IndexedDBStorage \<Rightarrow> (error + unit) \<times> IndexedDBStorage" where
  "cleanupExpiredLogs now expirationDays S =
     (if \<not> db S then (Inl DatabaseNotInitialized, S)
      else
        let expirationTime = now - expirationDays * 24 * 60 * 60 * 1000;
            in_range = sort_key timestamp (filter (\<lambda>r. timestamp r \<le> expirationTime) (rows S))
        in (Inr (), S\<lparr>rows := cursor_walk in_range (rows S)\<rparr>))"

section \<open>Configuration (src/types/config.ts)\<close>

text \<open>
  \<^verbatim>\<open>LoggerConfig\<close> has only optional properties: a property that is absent is \<open>None\<close>.
  \<^verbatim>\<open>Required<LoggerConfig>\<close> is the record \<open>Config\<close>. The object spread
  \<^verbatim>\<open>{...a, ...b}\<close> takes a property from \<open>b\<close> when \<open>b\<close> has it, else from \<open>a\<close>.
\<close>

record LoggerConfig =
  opt_serverUrl :: "string option"
  opt_debugMode :: "bool option"
  opt_uploadLogs :: "bool option"
  opt_logExpiration :: "int option"
  opt_uploadStrategy :: "UploadStrategy option"
  opt_batchSize :: "int option"

record Config =
  serverUrl :: string
  debugMode :: bool
  uploadLogs :: bool
  logExpiration :: int
  uploadStrategy :: UploadStrategy
  batchSize :: int

definition DEFAULT_CONFIG :: Config where
  "DEFAULT_CONFIG =
     \<lparr>serverUrl = [], debugMode = True, uploadLogs = True, logExpiration = 3,
      uploadStrategy = Idle, batchSize = 50\<rparr>"

definition no_options :: LoggerConfig where
  "no_options =
     \<lparr>opt_serverUrl = None, opt_debugMode = None, opt_uploadLogs = None,
      opt_logExpiration = None, opt_uploadStrategy = None, opt_batchSize = None\<rparr>"

definition spread :: "Config \<Rightarrow> LoggerConfig \<Rightarrow> Config" where
  "spread base over =
     \<lparr>serverUrl = (case opt_serverUrl over of Some v \<Rightarrow> v | None \<Rightarrow> serverUrl base),
      debugMode = (case opt_debugMode over of Some v \<Rightarrow> v | None \<Rightarrow> debugMode base),
      uploadLogs = (case opt_uploadLogs over of Some v \<Rightarrow> v | None \<Rightarrow> uploadLogs base),
      logExpiration = (case opt_logExpiration over of Some v \<Rightarrow> v | None \<Rightarrow> logExpiration base),
      uploadStrategy = (case opt_uploadStrategy over of Some v \<Rightarrow> v | None \<Rightarrow> uploadStrategy base),
      batchSize = (case opt_batchSize over of Some v \<Rightarrow> v | None \<Rightarrow> batchSize base)\<rparr>"

definition mergeConfig :: "LoggerConfig \<Rightarrow> Config" where
  "mergeConfig userConfig = spread DEFAULT_CONFIG userConfig"

text \<open>A \<open>Config\<close> read as a \<^verbatim>\<open>LoggerConfig\<close> object: every property is present.\<close>

definition as_options :: "Config \<Rightarrow> LoggerConfig" where
  "as_options c =
     \<lparr>opt_serverUrl = Some (serverUrl c), opt_debugMode = Some (debugMode c),
      opt_uploadLogs = Some (uploadLogs c), opt_logExpiration = Some (logExpiration c),
      opt_uploadStrategy = Some (uploadStrategy c), opt_batchSize = Some (batchSize c)\<rparr>"

section \<open>The world a logger runs in\<close>

text \<open>
  Everything outside the \<^verbatim>\<open>Logger\<close> object that its methods read or write: the one
  storage object shared by the logger, its upload manager and its cleanup manager; the
  console; the calls of \<^verbatim>\<open>uploadLogs\<close> completed and the requests made with \<^verbatim>\<open>fetch\<close>;
  and the platform's answers. \<open>fetch w k\<close> is the outcome of the request number \<open>k\<close>
  (counted from 0), \<open>idb_opens\<close> tells whether \<^verbatim>\<open>indexedDB.open\<close> succeeds and \<open>now\<close>
  is \<^verbatim>\<open>Date.now()\<close>.
\<close>

datatype fetch_outcome = ResponseOk | ResponseNotOk | FetchThrew

datatype console_line =
    Printed LogEntry                \<comment> \<open>\<^verbatim>\<open>printToConsole(logEntry)\<close>\<close>
  | NoServerUrlConfigured           \<comment> \<open>\<^verbatim>\<open>'No server URL configured for log upload'\<close>\<close>
  | FailedToUploadLogs              \<comment> \<open>\<^verbatim>\<open>'Failed to upload logs:'\<close>\<close>
  | ErrorUploadingLogs              \<comment> \<open>\<^verbatim>\<open>'Error uploading logs:'\<close>\<close>
  | FailedToUploadImmediately error \<comment> \<open>\<^verbatim>\<open>'Failed to upload logs immediately:'\<close>\<close>
  | FailedToUploadPending error     \<comment> \<open>\<^verbatim>\<open>'Failed to upload pending logs:'\<close>\<close>
  | FailedToInitializeLogger error  \<comment> \<open>\<^verbatim>\<open>'Failed to initialize logger:'\<close>\<close>
  | FailedToProcessLogEntry error   \<comment> \<open>\<^verbatim>\<open>'Failed to process log entry:'\<close>\<close>
  | CleanupCompleted                \<comment> \<open>\<^verbatim>\<open>'Log cleanup completed successfully'\<close>\<close>
  | FailedToCleanupLogs error       \<comment> \<open>\<^verbatim>\<open>'Failed to cleanup logs:'\<close>\<close>

text \<open>The body of a request: the entries without \<^verbatim>\<open>uploaded\<close>, and \<^verbatim>\<open>uploadTime\<close>.\<close>

type_synonym wire_log = "string \<times> LogLevel \<times> string \<times> (string \<times> string) list \<times> int"

definition wire :: "LogEntry \<Rightarrow> wire_log" where
  "wire log = (log_id log, level log, title log, data log, timestamp log)"

record world =
  storage :: IndexedDBStorage
  console :: "console_line list"
  sink_calls :: "(string \<times> LogEntry list \<times> bool) list"
  requests :: "(string \<times> wire_log list \<times> int) list"
  fetch :: "nat \<Rightarrow> fetch_outcome"
  idb_opens :: bool
  now :: int

definition console_out :: "console_line \<Rightarrow> world \<Rightarrow> world" where
  "console_out line w = w\<lparr>console := console w @ [line]\<rparr>"

section \<open>LogUploader (src/uploader/uploader.ts)\<close>

record LogUploader =
  uploader_serverUrl :: string

definition new_LogUploader :: "string \<Rightarrow> LogUploader" where
  "new_LogUploader url = \<lparr>uploader_serverUrl = url\<rparr>"

text \<open>
  \<^verbatim>\<open>uploadLogs(logs)\<close> resolves to a boolean and never rejects: the request is made
  inside \<^verbatim>\<open>try\<close>. Every call is recorded in \<open>sink_calls\<close>, with the URL of the
  instance it was made on, its argument and its result.
\<close>

definition LogUploader_uploadLogs :: "LogUploader \<Rightarrow> LogEntry list \<Rightarrow> world \<Rightarrow> bool \<times> world" where
  "LogUploader_uploadLogs U logs w =
     (let (result, w') =
            (if uploader_serverUrl U = [] then (False, console_out NoServerUrlConfigured w)
             else if logs = [] then (True, w)
             else
               let response = fetch w (length (requests w));
                   w1 = w\<lparr>requests := requests w @ [(uploader_serverUrl U, map wire logs, now w)]\<rparr>
               in case response of
                    ResponseOk \<Rightarrow> (True, w1)
                  | ResponseNotOk \<Rightarrow> (False, console_out FailedToUploadLogs w1)
                  | FetchThrew \<Rightarrow> (False, console_out ErrorUploadingLogs w1))
      in (result, w'\<lparr>sink_calls := sink_calls w' @ [(uploader_serverUrl U, logs, result)]\<rparr>))"

section \<open>UploadManager (src/uploader/uploadManager.ts), one call at a time\<close>

text \<open>
  \<^verbatim>\<open>Array.prototype.slice(start, end)\<close> on integer arguments: a negative argument
  counts from the end, both are clamped to the array, and an end before the start gives
  the empty array.
\<close>

definition slice :: "'a list \<Rightarrow> int \<Rightarrow> int \<Rightarrow> 'a list" where
  "slice xs start stop =
     (let len = int (length xs);
          k = (if start < 0 then max (len + start) 0 else min start len);
          final = (if stop < 0 then max (len + stop) 0 else min stop len)
      in take (nat (final - k)) (drop (nat k) xs))"

text \<open>
  The fields of the manager. \<^verbatim>\<open>storage\<close> is the shared storage object of the world.
  The manager's \<^verbatim>\<open>IdleDetector\<close> is embedded in its own section below; here
  \<open>idleSubscribed\<close> records that the detector exists with the sweep registered as its
  callback (\<^verbatim>\<open>setupIdleUpload\<close>), which \<^verbatim>\<open>destroy\<close> undoes.

  In this section every \<^verbatim>\<open>await\<close> runs to completion before anything else happens;
  the interleaving of several calls is the subject of a later section.
\<close>

record UploadManager =
  um_uploader :: LogUploader
  um_strategy :: UploadStrategy
  um_batchSize :: int
  isUploading :: bool
  idleSubscribed :: bool

definition new_UploadManager :: "LogUploader \<Rightarrow> UploadStrategy \<Rightarrow> int \<Rightarrow> UploadManager" where
  "new_UploadManager U strategy size0 =
     \<lparr>um_uploader = U, um_strategy = strategy, um_batchSize = size0, isUploading = False,
      idleSubscribed = (strategy = Idle)\<rparr>"

definition uploadImmediately :: "LogEntry list \<Rightarrow> UploadManager \<Rightarrow> world \<Rightarrow> UploadManager \<times> world" where
  "uploadImmediately logs M w =
     (if isUploading M then (M, w)
      else
        let M1 = M\<lparr>isUploading := True\<rparr>;
            (success, w1) = LogUploader_uploadLogs (um_uploader M1) logs w;
            w2 = (if success then
                    (case markAsUploaded (map log_id logs) (storage w1) of
                       (Inr u, S) \<Rightarrow> w1\<lparr>storage := S\<rparr>
                     | (Inl e, S) \<Rightarrow> console_out (FailedToUploadImmediately e) w1)
                  else w1)
        in (M1\<lparr>isUploading := False\<rparr>, w2))"

definition handleNewLog :: "LogEntry \<Rightarrow> UploadManager \<Rightarrow> world \<Rightarrow> (error + unit) \<times> UploadManager \<times> world" where
  "handleNewLog log M w =
     (case saveLog log (storage w) of
        (Inl e, S) \<Rightarrow> (Inl e, M, w)
      | (Inr u, S) \<Rightarrow>
          let w1 = w\<lparr>storage := S\<rparr> in
          if um_strategy M = Immediate then
            (let (M', w') = uploadImmediately [log] M w1 in (Inr (), M', w'))
          else (Inr (), M, w1))"

text \<open>
  The loop \<^verbatim>\<open>for (let i = 0; i < unuploadedLogs.length; i += this.batchSize)\<close> of
  \<^verbatim>\<open>uploadPendingLogs\<close>. Nothing in the source makes \<^verbatim>\<open>i\<close> grow, so the loop is a
  partial function: \<open>None\<close> is a loop that never ends. \<open>Some (Inl e, w)\<close> is an
  exception leaving the loop, \<open>Some (Inr (), w)\<close> its normal end or its \<^verbatim>\<open>break\<close>.
\<close>

partial_function (option) uploadBatches ::
  "UploadManager \<Rightarrow> LogEntry list \<Rightarrow> int \<Rightarrow> world \<Rightarrow> ((error + unit) \<times> world) option" where
  "uploadBatches M unuploadedLogs i w =
     (if i < int (length unuploadedLogs) then
        let batch = slice unuploadedLogs i (i + um_batchSize M);
            (success, w1) = LogUploader_uploadLogs (um_uploader M) batch w
        in if success then
             (case markAsUploaded (map log_id batch) (storage w1) of
                (Inl e, S) \<Rightarrow> Some (Inl e, w1)
              | (Inr u, S) \<Rightarrow> uploadBatches M unuploadedLogs (i + um_batchSize M) (w1\<lparr>storage := S\<rparr>))
           else Some (Inr (), w1)
      else Some (Inr (), w))"

definition uploadPendingLogs :: "UploadManager \<Rightarrow> world \<Rightarrow> (UploadManager \<times> world) option" where
  "uploadPendingLogs M w =
     (if isUploading M then Some (M, w)
      else
        let M1 = M\<lparr>isUploading := True\<rparr> in
        case getUnuploadedLogs (storage w) of
          Inl e \<Rightarrow> Some (M1\<lparr>isUploading := False\<rparr>, console_out (FailedToUploadPending e) w)
        | Inr unuploadedLogs \<Rightarrow>
            if unuploadedLogs = [] then Some (M1\<lparr>isUploading := False\<rparr>, w)
            else
              (case uploadBatches M1 unuploadedLogs 0 w of
                 None \<Rightarrow> None
               | Some (Inl e, w') \<Rightarrow>
                   Some (M1\<lparr>isUploading := False\<rparr>, console_out (FailedToUploadPending e) w')
               | Some (Inr u, w') \<Rightarrow> Some (M1\<lparr>isUploading := False\<rparr>, w')))"

definition UploadManager_forceUpload :: "UploadManager \<Rightarrow> world \<Rightarrow> (UploadManager \<times> world) option" where
  "UploadManager_forceUpload M w = uploadPendingLogs M w"

text \<open>The callback registered by \<^verbatim>\<open>setupIdleUpload\<close>, run when the detector fires.\<close>

definition idleCallback :: "UploadManager \<Rightarrow> world \<Rightarrow> (UploadManager \<times> world) option" where
  "idleCallback M w = (if idleSubscribed M then uploadPendingLogs M w else Some (M, w))"

definition UploadManager_destroy :: "UploadManager \<Rightarrow> UploadManager" where
  "UploadManager_destroy M = M\<lparr>idleSubscribed := False\<rparr>"

section \<open>CleanupManager (src/utils/cleanup.ts)\<close>

text \<open>
  \<open>cleanupInterval = Some d\<close>: an interval is set that runs \<^verbatim>\<open>performCleanup(d)\<close>
  every 24 hours. \<^verbatim>\<open>performCleanup\<close> catches what the storage throws.
  \<^verbatim>\<open>startPeriodicCleanup\<close> does not await it: the transaction of the cleanup is
  created at once, so it takes effect before every later request on the store, but
  its console line is written only when that transaction has ended. Here the line is
  written when the cleanup is started; \<open>console\<close> therefore has this line earlier
  than the code writes it, and tells nothing about its place among the other lines.
\<close>

record CleanupManager =
  cleanupInterval :: "int option"

definition performCleanup :: "int \<Rightarrow> world \<Rightarrow> world" where
  "performCleanup expirationDays w =
     (case cleanupExpiredLogs (now w) expirationDays (storage w) of
        (Inl e, S) \<Rightarrow> console_out (FailedToCleanupLogs e) w
      | (Inr u, S) \<Rightarrow> console_out CleanupCompleted (w\<lparr>storage := S\<rparr>))"

definition startPeriodicCleanup :: "int \<Rightarrow> CleanupManager \<Rightarrow> world \<Rightarrow> CleanupManager \<times> world" where
  "startPeriodicCleanup expirationDays C w =
     (C\<lparr>cleanupInterval := Some expirationDays\<rparr>, performCleanup expirationDays w)"

definition cleanupIntervalFires :: "CleanupManager \<Rightarrow> world \<Rightarrow> world" where
  "cleanupIntervalFires C w =
     (case cleanupInterval C of None \<Rightarrow> w | Some d \<Rightarrow> performCleanup d w)"

definition stopPeriodicCleanup :: "CleanupManager \<Rightarrow> CleanupManager" where
  "stopPeriodicCleanup C = C\<lparr>cleanupInterval := None\<rparr>"

definition CleanupManager_destroy :: "CleanupManager \<Rightarrow> CleanupManager" where
  "CleanupManager_destroy C = stopPeriodicCleanup C"

section \<open>Logger (src/core/logger.ts)\<close>

text \<open>
  The fields of the logger; its \<^verbatim>\<open>storage\<close> is the storage object of the world. The
  constructor makes a new storage object, whose \<^verbatim>\<open>db\<close> is null; the object store of
  the browser keeps its records.
\<close>

record Logger =
  config :: Config
  uploader :: LogUploader
  uploadManager :: UploadManager
  cleanupManager :: CleanupManager
  initialized :: bool

definition new_Logger :: "LoggerConfig \<Rightarrow> world \<Rightarrow> Logger \<times> world" where
  "new_Logger userConfig w =
     (let c = mergeConfig userConfig;
          U = new_LogUploader (serverUrl c)
      in (\<lparr>config = c, uploader = U,
           uploadManager = new_UploadManager U (uploadStrategy c) (batchSize c),
           cleanupManager = \<lparr>cleanupInterval = None\<rparr>, initialized = False\<rparr>,
          w\<lparr>storage := (storage w)\<lparr>db := False\<rparr>\<rparr>))"

definition Logger_init :: "Logger \<Rightarrow> world \<Rightarrow> (error + unit) \<times> Logger \<times> world" where
  "Logger_init L w =
     (if initialized L then (Inr (), L, w)
      else
        case storage_init (idb_opens w) (storage w) of
          (Inl e, S) \<Rightarrow> (Inl e, L, console_out (FailedToInitializeLogger e) w)
        | (Inr u, S) \<Rightarrow>
            let w1 = w\<lparr>storage := S\<rparr>;
                (C, w2) = (if logExpiration (config L) > 0
                           then startPeriodicCleanup (logExpiration (config L)) (cleanupManager L) w1
                           else (cleanupManager L, w1))
            in (Inr (), L\<lparr>cleanupManager := C, initialized := True\<rparr>, w2))"

text \<open>
  \<^verbatim>\<open>log(level, title, data)\<close>. \<open>ident\<close> is the value \<^verbatim>\<open>generateLogId()\<close> returns. The
  call \<^verbatim>\<open>await this.init()\<close> stands before the \<^verbatim>\<open>try\<close> block.
\<close>

definition Logger_log ::
  "LogLevel \<Rightarrow> string \<Rightarrow> (string \<times> string) list \<Rightarrow> string \<Rightarrow> Logger \<Rightarrow> world
     \<Rightarrow> (error + unit) \<times> Logger \<times> world" where
  "Logger_log lvl ttl dat ident L w =
     (case (if \<not> initialized L then Logger_init L w else (Inr (), L, w)) of
        (Inl e, L1, w1) \<Rightarrow> (Inl e, L1, w1)
      | (Inr u, L1, w1) \<Rightarrow>
          if \<not> debugMode (config L1) \<and> (lvl = Debug \<or> lvl = Trace) then (Inr (), L1, w1)
          else
            let logEntry = \<lparr>log_id = ident, level = lvl, title = ttl, data = dat,
                             timestamp = now w1, uploaded = False\<rparr>;
                w2 = (if debugMode (config L1) then console_out (Printed logEntry) w1
                      else if lvl \<noteq> Debug \<and> lvl \<noteq> Trace then console_out (Printed logEntry) w1
                      else w1)
            in if uploadLogs (config L1) then
                 (case handleNewLog logEntry (uploadManager L1) w2 of
                    (Inl e, M, w3) \<Rightarrow>
                      (Inr (), L1\<lparr>uploadManager := M\<rparr>, console_out (FailedToProcessLogEntry e) w3)
                  | (Inr u, M, w3) \<Rightarrow> (Inr (), L1\<lparr>uploadManager := M\<rparr>, w3))
               else
                 (case saveLog logEntry (storage w2) of
                    (Inl e, S) \<Rightarrow> (Inr (), L1, console_out (FailedToProcessLogEntry e) w2)
                  | (Inr u, S) \<Rightarrow> (Inr (), L1, w2\<lparr>storage := S\<rparr>)))"

definition Logger_info :: "string \<Rightarrow> (string \<times> string) list \<Rightarrow> string \<Rightarrow> Logger \<Rightarrow> world \<Rightarrow> (error + unit) \<times> Logger \<times> world" where
  "Logger_info = Logger_log Info"


definition Logger_error :: "string \<Rightarrow> (string \<times> string) list \<Rightarrow> string \<Rightarrow> Logger \<Rightarrow> world \<Rightarrow> (error + unit) \<times> Logger \<times> world" where
  "Logger_error = Logger_log Error"


definition Logger_trace :: "string \<Rightarrow> (string \<times> string) list \<Rightarrow> string \<Rightarrow> Logger \<Rightarrow> world \<Rightarrow> (error + unit) \<times> Logger \<times> world" where
  "Logger_trace = Logger_log Trace"

text \<open>\<^verbatim>\<open>forceUpload()\<close>: \<open>None\<close> when the sweep of the manager never ends.\<close>

definition Logger_forceUpload :: "Logger \<Rightarrow> world \<Rightarrow> ((error + unit) \<times> Logger \<times> world) option" where
  "Logger_forceUpload L w =
     (case (if \<not> initialized L then Logger_init L w else (Inr (), L, w)) of
        (Inl e, L1, w1) \<Rightarrow> Some (Inl e, L1, w1)
      | (Inr u, L1, w1) \<Rightarrow>
          (case UploadManager_forceUpload (uploadManager L1) w1 of
             None \<Rightarrow> None
           | Some (M, w2) \<Rightarrow> Some (Inr (), L1\<lparr>uploadManager := M\<rparr>, w2)))"

definition Logger_getAllLogs :: "Logger \<Rightarrow> world \<Rightarrow> (error + LogEntry list) \<times> Logger \<times> world" where
  "Logger_getAllLogs L w =
     (case (if \<not> initialized L then Logger_init L w else (Inr (), L, w)) of
        (Inl e, L1, w1) \<Rightarrow> (Inl e, L1, w1)
      | (Inr u, L1, w1) \<Rightarrow> (getAllLogs (storage w1), L1, w1))"

definition Logger_clearAllLogs :: "Logger \<Rightarrow> world \<Rightarrow> (error + unit) \<times> Logger \<times> world" where
  "Logger_clearAllLogs L w =
     (case (if \<not> initialized L then Logger_init L w else (Inr (), L, w)) of
        (Inl e, L1, w1) \<Rightarrow> (Inl e, L1, w1)
      | (Inr u, L1, w1) \<Rightarrow>
          (case clearAllLogs (storage w1) of (r, S) \<Rightarrow> (r, L1, w1\<lparr>storage := S\<rparr>)))"

definition Logger_getConfig :: "Logger \<Rightarrow> Config" where
  "Logger_getConfig L = config L"

text \<open>
  \<^verbatim>\<open>updateConfig(newConfig)\<close>. A new uploader is made when the server URL changes; a new
  upload manager is made, from \<^verbatim>\<open>this.uploader\<close>, when the strategy or the batch size
  changes.
\<close>

definition Logger_updateConfig :: "LoggerConfig \<Rightarrow> Logger \<Rightarrow> world \<Rightarrow> Logger \<times> world" where
  "Logger_updateConfig newConfig L w =
     (let oldConfig = config L;
          cfg = mergeConfig (as_options (spread (config L) newConfig));
          L1 = L\<lparr>config := cfg\<rparr>;
          L2 = (if serverUrl oldConfig \<noteq> serverUrl cfg
                then L1\<lparr>uploader := new_LogUploader (serverUrl cfg)\<rparr> else L1);
          L3 = (if uploadStrategy oldConfig \<noteq> uploadStrategy cfg \<or> batchSize oldConfig \<noteq> batchSize cfg
                then L2\<lparr>uploadManager :=
                         new_UploadManager (uploader L2) (uploadStrategy cfg) (batchSize cfg)\<rparr>
                else L2)
      in if logExpiration oldConfig \<noteq> logExpiration cfg then
           (let C = stopPeriodicCleanup (cleanupManager L3) in
            if logExpiration cfg > 0 then
              (let (C', w') = startPeriodicCleanup (logExpiration cfg) C w
               in (L3\<lparr>cleanupManager := C'\<rparr>, w'))
            else (L3\<lparr>cleanupManager := C\<rparr>, w))
         else (L3, w))"

definition Logger_destroy :: "Logger \<Rightarrow> Logger" where
  "Logger_destroy L =
     L\<lparr>uploadManager := UploadManager_destroy (uploadManager L),
       cleanupManager := CleanupManager_destroy (cleanupManager L),
       initialized := False\<rparr>"

section \<open>IdleDetector (src/utils/idle.ts)\<close>

text \<open>
  The detector and the timers of its host. Time is in milliseconds. \<open>pending\<close> holds the
  handle and the due time of every timeout that is set and has neither fired nor been
  cleared; handles are positive, hence truthy. \<open>has_window\<close> is
  \<^verbatim>\<open>typeof window !== 'undefined'\<close>; \<open>listening\<close> tells that the activity listeners are
  registered on the document. \<open>onIdleCallback\<close> tells whether a callback is registered,
  and \<open>invocations\<close> lists the times at which it was called.
\<close>

record host =
  has_window :: bool
  clock :: nat
  pending :: "(nat \<times> nat) list"
  next_handle :: nat
  listening :: bool
  invocations :: "nat list"

record IdleDetector =
  idleTimeout :: nat
  idleTimer :: "nat option"
  onIdleCallback :: bool
  lastActivity :: nat
  isIdle :: bool

definition setTimeout :: "nat \<Rightarrow> host \<Rightarrow> nat \<times> host" where
  "setTimeout delay E =
     (next_handle E,
      E\<lparr>pending := pending E @ [(next_handle E, clock E + delay)],
        next_handle := next_handle E + 1\<rparr>)"

definition clearTimeout :: "nat \<Rightarrow> host \<Rightarrow> host" where
  "clearTimeout h E = E\<lparr>pending := filter (\<lambda>(h', due). h' \<noteq> h) (pending E)\<rparr>"

definition resetTimer :: "IdleDetector \<Rightarrow> host \<Rightarrow> IdleDetector \<times> host" where
  "resetTimer D E =
     (let E1 = (case idleTimer D of Some h \<Rightarrow> clearTimeout h E | None \<Rightarrow> E);
          (h, E2) = setTimeout (idleTimeout D) E1
      in (D\<lparr>idleTimer := Some h\<rparr>, E2))"

text \<open>The function given to \<^verbatim>\<open>setTimeout\<close> by \<^verbatim>\<open>resetTimer\<close>.\<close>

definition timeout_handler :: "IdleDetector \<Rightarrow> host \<Rightarrow> IdleDetector \<times> host" where
  "timeout_handler D E =
     (if \<not> isIdle D then
        (D\<lparr>isIdle := True\<rparr>,
         if onIdleCallback D then E\<lparr>invocations := invocations E @ [clock E]\<rparr> else E)
      else (D, E))"

definition new_IdleDetector :: "nat \<Rightarrow> host \<Rightarrow> IdleDetector \<times> host" where
  "new_IdleDetector idleTimeoutMs E =
     (let D = \<lparr>idleTimeout = idleTimeoutMs, idleTimer = None, onIdleCallback = False,
               lastActivity = clock E, isIdle = False\<rparr>;
          E1 = (if has_window E then E\<lparr>listening := True\<rparr> else E)
      in resetTimer D E1)"

definition onIdle :: "IdleDetector \<times> host \<Rightarrow> IdleDetector \<times> host" where
  "onIdle s = ((fst s)\<lparr>onIdleCallback := True\<rparr>, snd s)"

text \<open>One of the observed events reaches the document: \<^verbatim>\<open>resetIdleTimer\<close> runs if it is registered.\<close>

definition activity :: "IdleDetector \<times> host \<Rightarrow> IdleDetector \<times> host" where
  "activity s =
     (case s of (D, E) \<Rightarrow>
        if listening E
        then resetTimer (D\<lparr>lastActivity := clock E, isIdle := False\<rparr>) E
        else (D, E))"

definition IdleDetector_destroy :: "IdleDetector \<times> host \<Rightarrow> IdleDetector \<times> host" where
  "IdleDetector_destroy s =
     (case s of (D, E) \<Rightarrow>
        let (D1, E1) = (case idleTimer D of
                          Some h \<Rightarrow> (D\<lparr>idleTimer := None\<rparr>, clearTimeout h E)
                        | None \<Rightarrow> (D, E))
        in (D1\<lparr>onIdleCallback := False\<rparr>, E1\<lparr>listening := False\<rparr>))"

text \<open>
  Time passes until \<open>t\<close>: the timeouts due by then fire in the order of their due
  times, each at its due time, unless an earlier handler cleared them.
\<close>

fun fire_due :: "(nat \<times> nat) list \<Rightarrow> IdleDetector \<times> host \<Rightarrow> IdleDetector \<times> host" where
  "fire_due [] s = s"
| "fire_due ((h, due) # ts) (D, E) =
     (if (h, due) \<in> set (pending E)
      then fire_due ts
             (timeout_handler D
                (E\<lparr>clock := max (clock E) due, pending := removeAll (h, due) (pending E)\<rparr>))
      else fire_due ts (D, E))"

definition advance_to :: "nat \<Rightarrow> IdleDetector \<times> host \<Rightarrow> IdleDetector \<times> host" where
  "advance_to t s =
     (let due = sort_key snd (filter (\<lambda>(h, d). d \<le> t) (pending (snd s)));
          (D, E) = fire_due due s
      in (D, E\<lparr>clock := max (clock E) t\<rparr>))"

definition fresh_host :: "bool \<Rightarrow> nat \<Rightarrow> host" where
  "fresh_host hw t0 =
     \<lparr>has_window = hw, clock = t0, pending = [], next_handle = 1, listening = False,
      invocations = []\<rparr>"

text \<open>
  What happens to a detector: time passes until a given moment, or one of the observed
  events reaches the document. \<open>reached d hs\<close> tells that time has passed until \<open>d\<close>
  or later somewhere in \<open>hs\<close>.
\<close>

datatype happening = Elapse nat | Activity

fun happen :: "happening \<Rightarrow> IdleDetector \<times> host \<Rightarrow> IdleDetector \<times> host" where
  "happen (Elapse t) s = advance_to t s"
| "happen Activity s = activity s"

definition idle_run :: "happening list \<Rightarrow> IdleDetector \<times> host \<Rightarrow> IdleDetector \<times> host" where
  "idle_run hs s = foldl (\<lambda>s h. happen h s) s hs"

fun reached :: "nat \<Rightarrow> happening list \<Rightarrow> bool" where
  "reached d [] = False"
| "reached d (Elapse t # hs) = (d \<le> t \<or> reached d hs)"
| "reached d (Activity # hs) = reached d hs"

section \<open>UploadManager, interleaved calls\<close>

text \<open>
  JavaScript runs one task at a time: a call runs until its next \<^verbatim>\<open>await\<close>, and any
  other call may run before the awaited promise settles. A call of the manager that is
  suspended is a \<open>pc\<close>: the \<^verbatim>\<open>await\<close> it stands at, with its local variables. An
  \<open>event\<close> is a trigger (a new log entry, a fire of the idle detector, a forced
  upload), which runs a new call up to its first \<^verbatim>\<open>await\<close>, or the settling of the
  promise a suspended call awaits, which runs that call up to its next \<^verbatim>\<open>await\<close> or
  its end. A storage operation takes effect when its promise is fulfilled; \<open>Rejected\<close>
  is a failure of the platform, or an exception of the uploader. The boolean of
  \<open>Fulfilled\<close> is the value \<^verbatim>\<open>uploadLogs\<close> resolves to; a storage operation ignores it.
\<close>

datatype settle = Fulfilled bool | Rejected

datatype pc =
    AwaitSaveLog LogEntry
  | AwaitImmediateUpload "LogEntry list"
  | AwaitImmediateMark "LogEntry list"
  | AwaitGetUnuploaded
  | AwaitBatchUpload "LogEntry list" int "LogEntry list"
  | AwaitBatchMark "LogEntry list" int "LogEntry list"
  | Finished

datatype event = NewLog LogEntry | IdleFire | ForceUpload | Settle nat settle

record interleaving =
  mgr :: UploadManager
  store :: IndexedDBStorage
  tasks :: "pc list"

text \<open>\<^verbatim>\<open>finally { this.isUploading = false }\<close>, and the call \<open>k\<close> returns.\<close>

definition finish_attempt :: "nat \<Rightarrow> interleaving \<Rightarrow> interleaving" where
  "finish_attempt k s =
     s\<lparr>mgr := (mgr s)\<lparr>isUploading := False\<rparr>, tasks := (tasks s)[k := Finished]\<rparr>"

definition return_from :: "nat \<Rightarrow> interleaving \<Rightarrow> interleaving" where
  "return_from k s = s\<lparr>tasks := (tasks s)[k := Finished]\<rparr>"

text \<open>The test of the \<^verbatim>\<open>for\<close> loop, and the body up to \<^verbatim>\<open>await this.uploader.uploadLogs(batch)\<close>.\<close>

definition loop_head :: "LogEntry list \<Rightarrow> int \<Rightarrow> nat \<Rightarrow> interleaving \<Rightarrow> interleaving" where
  "loop_head unuploadedLogs i k s =
     (if i < int (length unuploadedLogs) then
        s\<lparr>tasks := (tasks s)[k := AwaitBatchUpload unuploadedLogs i
                                   (slice unuploadedLogs i (i + um_batchSize (mgr s)))]\<rparr>
      else finish_attempt k s)"

text \<open>\<^verbatim>\<open>uploadPendingLogs()\<close> up to \<^verbatim>\<open>await this.storage.getUnuploadedLogs()\<close>.\<close>

definition enter_sweep :: "interleaving \<Rightarrow> interleaving" where
  "enter_sweep s =
     (if isUploading (mgr s) then s
      else s\<lparr>mgr := (mgr s)\<lparr>isUploading := True\<rparr>, tasks := tasks s @ [AwaitGetUnuploaded]\<rparr>)"

fun resume :: "pc \<Rightarrow> settle \<Rightarrow> nat \<Rightarrow> interleaving \<Rightarrow> interleaving" where
  "resume (AwaitSaveLog log) (Fulfilled b) k s =
     (case saveLog log (store s) of
        (Inl e, S) \<Rightarrow> return_from k s
      | (Inr u, S) \<Rightarrow>
          let s1 = s\<lparr>store := S\<rparr> in
          if um_strategy (mgr s1) = Immediate then
            (if isUploading (mgr s1) then return_from k s1
             else s1\<lparr>mgr := (mgr s1)\<lparr>isUploading := True\<rparr>,
                    tasks := (tasks s1)[k := AwaitImmediateUpload [log]]\<rparr>)
          else return_from k s1)"
| "resume (AwaitSaveLog log) Rejected k s = return_from k s"
| "resume (AwaitImmediateUpload logs) (Fulfilled success) k s =
     (if success then s\<lparr>tasks := (tasks s)[k := AwaitImmediateMark logs]\<rparr>
      else finish_attempt k s)"
| "resume (AwaitImmediateUpload logs) Rejected k s = finish_attempt k s"
| "resume (AwaitImmediateMark logs) (Fulfilled b) k s =
     (case markAsUploaded (map log_id logs) (store s) of
        (Inl e, S) \<Rightarrow> finish_attempt k s
      | (Inr u, S) \<Rightarrow> finish_attempt k (s\<lparr>store := S\<rparr>))"
| "resume (AwaitImmediateMark logs) Rejected k s = finish_attempt k s"
| "resume AwaitGetUnuploaded (Fulfilled b) k s =
     (case getUnuploadedLogs (store s) of
        Inl e \<Rightarrow> finish_attempt k s
      | Inr unuploadedLogs \<Rightarrow>
          if unuploadedLogs = [] then finish_attempt k s
          else loop_head unuploadedLogs 0 k s)"
| "resume AwaitGetUnuploaded Rejected k s = finish_attempt k s"
| "resume (AwaitBatchUpload unuploadedLogs i batch) (Fulfilled success) k s =
     (if success then s\<lparr>tasks := (tasks s)[k := AwaitBatchMark unuploadedLogs i batch]\<rparr>
      else finish_attempt k s)"
| "resume (AwaitBatchUpload unuploadedLogs i batch) Rejected k s = finish_attempt k s"
| "resume (AwaitBatchMark unuploadedLogs i batch) (Fulfilled b) k s =
     (case markAsUploaded (map log_id batch) (store s) of
        (Inl e, S) \<Rightarrow> finish_attempt k s
      | (Inr u, S) \<Rightarrow> loop_head unuploadedLogs (i + um_batchSize (mgr s)) k (s\<lparr>store := S\<rparr>))"
| "resume (AwaitBatchMark unuploadedLogs i batch) Rejected k s = finish_attempt k s"
| "resume Finished v k s = s"

fun step :: "event \<Rightarrow> interleaving \<Rightarrow> interleaving" where
  "step (NewLog log) s = s\<lparr>tasks := tasks s @ [AwaitSaveLog log]\<rparr>"
| "step IdleFire s = (if idleSubscribed (mgr s) then enter_sweep s else s)"
| "step ForceUpload s = enter_sweep s"
| "step (Settle k v) s = (if k < length (tasks s) then resume (tasks s ! k) v k s else s)"

definition run :: "event list \<Rightarrow> interleaving \<Rightarrow> interleaving" where
  "run es s = foldl (\<lambda>s e. step e s) s es"

text \<open>A manager as its constructor leaves it, over a storage, with no call under way.\<close>

definition at_rest :: "UploadManager \<Rightarrow> IndexedDBStorage \<Rightarrow> interleaving" where
  "at_rest M S = \<lparr>mgr = M, store = S, tasks = []\<rparr>"

text \<open>
  A call is an upload attempt from the moment it has set \<^verbatim>\<open>isUploading\<close> until it
  returns; it has a sink call under way while it awaits \<^verbatim>\<open>uploadLogs\<close>.
\<close>

fun attempting :: "pc \<Rightarrow> bool" where
  "attempting (AwaitSaveLog log) = False"
| "attempting Finished = False"
| "attempting p = True"

fun sending :: "pc \<Rightarrow> bool" where
  "sending (AwaitImmediateUpload logs) = True"
| "sending (AwaitBatchUpload unuploadedLogs i batch) = True"
| "sending p = False"

section \<open>Values used in the examples, and auxiliary notions of the proofs\<close>

definition entry :: "string \<Rightarrow> int \<Rightarrow> bool \<Rightarrow> LogEntry" where
  "entry i t u =
     \<lparr>log_id = i, level = Info, title = ''t'', data = [], timestamp = t, uploaded = u\<rparr>"

text \<open>The records \<^verbatim>\<open>markAsUploaded\<close> writes back: one for each id it finds.\<close>

definition mark_puts :: "string list \<Rightarrow> LogEntry list \<Rightarrow> LogEntry list" where
  "mark_puts ids rs =
     List.map_filter (map_option (\<lambda>log. log\<lparr>uploaded := True\<rparr>)) (map (\<lambda>i. store_get i rs) ids)"

text \<open>
  The two states of a detector without activity listeners whose timeout is \<open>T\<close> and
  which was made at time \<open>t0\<close>: its one timeout is still pending, or it has fired.
\<close>

definition armed :: "nat \<Rightarrow> nat \<Rightarrow> IdleDetector \<times> host \<Rightarrow> bool" where
  "armed T t0 s =
     (\<not> isIdle (fst s) \<and> onIdleCallback (fst s) \<and> \<not> listening (snd s)
      \<and> pending (snd s) = [(1, t0 + T)] \<and> invocations (snd s) = [] \<and> clock (snd s) \<le> t0 + T)"

definition spent :: "nat \<Rightarrow> nat \<Rightarrow> IdleDetector \<times> host \<Rightarrow> bool" where
  "spent T t0 s =
     (isIdle (fst s) \<and> \<not> listening (snd s)
      \<and> pending (snd s) = [] \<and> invocations (snd s) = [t0 + T])"

text \<open>
  Worlds for the examples: an open store holding the given records, nothing printed or
  sent yet, and a network that answers as \<open>f\<close> says.
\<close>

definition fetch_always :: "fetch_outcome \<Rightarrow> nat \<Rightarrow> fetch_outcome" where
  "fetch_always r k = r"

definition quiet_world :: "LogEntry list \<Rightarrow> (nat \<Rightarrow> fetch_outcome) \<Rightarrow> world" where
  "quiet_world rs f =
     \<lparr>storage = \<lparr>db = True, rows = rs\<rparr>, console = [], sink_calls = [], requests = [],
      fetch = f, idb_opens = True, now = 0\<rparr>"

text \<open>
  The sweep in the words of the specification: the records are cut into consecutive
  batches of at most \<open>b\<close> (\<open>chunks\<close>), and the batches are sent in sequence, each one
  marked when the sink accepts it, until the first that the sink refuses (\<open>send_all\<close>).
  The loop of \<^verbatim>\<open>uploadPendingLogs\<close> is proved equal to this below, for a positive batch size.
\<close>

fun chunks :: "nat \<Rightarrow> 'a list \<Rightarrow> 'a list list" where
  "chunks b xs = (if xs = [] \<or> b = 0 then [] else take b xs # chunks b (drop b xs))"

declare chunks.simps [simp del]

fun send_all :: "LogUploader \<Rightarrow> LogEntry list list \<Rightarrow> world \<Rightarrow> world" where
  "send_all U [] w = w"
| "send_all U (c # cs) w =
     (let (success, w1) = LogUploader_uploadLogs U c w in
      if success
      then send_all U cs (w1\<lparr>storage := snd (markAsUploaded (map log_id c) (storage w1))\<rparr>)
      else w1)"

text \<open>
  The calls of \<^verbatim>\<open>uploadLogs\<close> made between two worlds; the ids of the batches whose
  call returned true; and a store in which the records with these ids are marked.
\<close>

definition new_calls :: "world \<Rightarrow> world \<Rightarrow> (string \<times> LogEntry list \<times> bool) list" where
  "new_calls w w' = drop (length (sink_calls w)) (sink_calls w')"

definition acknowledged :: "(string \<times> LogEntry list \<times> bool) list \<Rightarrow> string list" where
  "acknowledged calls = concat (map (\<lambda>(u, batch, ok). if ok then map log_id batch else []) calls)"

definition mark_rows :: "string list \<Rightarrow> LogEntry list \<Rightarrow> LogEntry list" where
  "mark_rows ids rs = map (\<lambda>r. if log_id r \<in> set ids then r\<lparr>uploaded := True\<rparr> else r) rs"

text \<open>A world whose platform refuses to open the database.\<close>

definition dead_world :: "LogEntry list \<Rightarrow> world" where
  "dead_world rs =
     \<lparr>storage = \<lparr>db = False, rows = rs\<rparr>, console = [], sink_calls = [], requests = [],
      fetch = fetch_always ResponseOk, idb_opens = False, now = 0\<rparr>"

text \<open>
  A logger constructed from a configuration and initialized, with the world it leaves;
  and the scenario of a logger started with the server URL \<open>''old''\<close> and the immediate
  strategy, then reconfigured with the server URL \<open>''new''\<close> alone.
\<close>

definition started :: "LoggerConfig \<Rightarrow> world \<Rightarrow> Logger \<times> world" where
  "started userConfig w0 =
     (let (L, w) = new_Logger userConfig w0 in snd (Logger_init L w))"

definition reconfigured :: "Logger \<times> world" where
  "reconfigured =
     (let (L, w) = started (no_options\<lparr>opt_serverUrl := Some ''old'', opt_uploadStrategy := Some Immediate\<rparr>)
                     (quiet_world [] (fetch_always ResponseOk))
      in Logger_updateConfig (no_options\<lparr>opt_serverUrl := Some ''new''\<rparr>) L w)"

text \<open>
  The state a manager reaches from its construction over a storage by a sequence of
  events, and the invariant of the guard: the number of upload attempts under way is 1
  when \<^verbatim>\<open>isUploading\<close> is set and 0 when it is not.
\<close>

definition history :: "LogUploader \<Rightarrow> UploadStrategy \<Rightarrow> int \<Rightarrow> IndexedDBStorage \<Rightarrow> event list \<Rightarrow> interleaving" where
  "history U strategy b S es = run es (at_rest (new_UploadManager U strategy b) S)"

definition guarded :: "interleaving \<Rightarrow> bool" where
  "guarded s = (length (filter attempting (tasks s)) = (if isUploading (mgr s) then 1 else 0))"

text \<open>
  The loop index of a sweep stays inside the list (\<open>in_loop\<close>, for a positive batch
  size); \<open>remaining\<close> bounds the number of promises an attempt still has to await
  before it ends; \<open>settle_all k vs\<close> settles the promises the call \<open>k\<close> awaits, one
  after the other, with the outcomes \<open>vs\<close>.
\<close>

fun in_loop :: "pc \<Rightarrow> bool" where
  "in_loop (AwaitBatchUpload logs i batch) = (0 \<le> i \<and> i < int (length logs))"
| "in_loop (AwaitBatchMark logs i batch) = (0 \<le> i \<and> i < int (length logs))"
| "in_loop p = True"

fun remaining :: "IndexedDBStorage \<Rightarrow> pc \<Rightarrow> nat" where
  "remaining S (AwaitImmediateUpload logs) = 2"
| "remaining S (AwaitImmediateMark logs) = 1"
| "remaining S AwaitGetUnuploaded = 2 * length (filter (\<lambda>log. \<not> uploaded log) (rows S)) + 1"
| "remaining S (AwaitBatchUpload logs i batch) = 2 * (length logs - nat i)"
| "remaining S (AwaitBatchMark logs i batch) = 2 * (length logs - nat i) - 1"
| "remaining S (AwaitSaveLog log) = 0"
| "remaining S Finished = 0"

definition settle_all :: "nat \<Rightarrow> settle list \<Rightarrow> interleaving \<Rightarrow> interleaving" where
  "settle_all k vs s = foldl (\<lambda>s v. step (Settle k v) s) s vs"

definition well_formed :: "interleaving \<Rightarrow> bool" where
  "well_formed s = list_all in_loop (tasks s)"



text \<open>
  A forced upload started in the state \<open>s\<close>, followed by \<open>n\<close> settlements of the
  promises its call awaits, each of them successful.
\<close>

definition swept :: "nat \<Rightarrow> interleaving \<Rightarrow> interleaving" where
  "swept n s = settle_all (length (tasks s)) (replicate n (Fulfilled True)) (step ForceUpload s)"

section \<open>The object store\<close>

lemma entry_sel [simp]:
  "log_id (entry i t u) = i" "timestamp (entry i t u) = t" "uploaded (entry i t u) = u"
  "level (entry i t u) = Info" "(entry i t u)\<lparr>uploaded := v\<rparr> = entry i t v"
  by (simp_all add: entry_def)

lemma store_get_log_id: "store_get k rs = Some l \<Longrightarrow> log_id l = k"
  by (induction rs) (auto simp: store_get_def split: if_splits)

lemma store_get_put:
  "store_get k (store_put l rs) = (if k = log_id l then Some l else store_get k rs)"
  by (induction rs) (auto simp: store_get_def)

lemma store_put_get_same: "store_get k rs = Some l \<Longrightarrow> store_put l rs = rs"
proof (induction rs)
  case Nil
  then show ?case by (simp add: store_get_def)
next
  case (Cons r rs)
  show ?case
  proof (cases "log_id r = k")
    case True
    with Cons.prems have "r = l" by (simp add: store_get_def)
    then show ?thesis by simp
  next
    case False
    with Cons.prems have g: "store_get k rs = Some l" by (simp add: store_get_def)
    from store_get_log_id[OF g] False have "log_id r \<noteq> log_id l" by simp
    with Cons.IH[OF g] show ?thesis by simp
  qed
qed

lemma fold_put_noop:
  "\<forall>l \<in> set ps. store_get (log_id l) rs = Some l \<Longrightarrow>
     foldl (\<lambda>rs log. store_put log rs) rs ps = rs"
  by (induction ps) (auto simp: store_put_get_same)

lemma store_get_fold_put:
  "store_get k (foldl (\<lambda>rs log. store_put log rs) rs ps) =
     (case find (\<lambda>l. log_id l = k) (rev ps) of Some l \<Rightarrow> Some l | None \<Rightarrow> store_get k rs)"
  by (induction ps arbitrary: rs rule: rev_induct) (auto simp: store_get_put)

lemma find_unique:
  assumes "x \<in> set xs" "P x" "\<forall>y\<in>set xs. P y \<longrightarrow> y = x"
  shows "find P xs = Some x"
proof -
  from assms(1,2) have "find P xs \<noteq> None" by (auto simp: find_None_iff)
  then obtain y where y: "find P xs = Some y" by blast
  then have "y \<in> set xs" "P y" by (auto simp: find_Some_iff)
  with assms(3) have "y = x" by blast
  with y show ?thesis by simp
qed

subsection \<open>The order of the keys\<close>

text \<open>
  \<open>key_less\<close> is a strict total order, and a record added under a new key leaves the
  records in the order of their keys.
\<close>

lemma key_less_irrefl: "\<not> key_less a a"
  by (induction a) simp_all

lemma key_less_trans: "key_less a b \<Longrightarrow> key_less b c \<Longrightarrow> key_less a c"
proof (induction a b arbitrary: c rule: key_less.induct)
  case (2 d ds)
  then show ?case by (cases c) simp_all
next
  case (4 x xs d ds)
  then show ?case by (cases c) auto
qed simp_all

lemma key_less_total: "a \<noteq> b \<Longrightarrow> key_less a b \<or> key_less b a"
proof (induction a b rule: key_less.induct)
  case (4 c cs d ds)
  have "(of_char c :: nat) < of_char d \<or> (of_char d :: nat) < of_char c \<or> c = d"
    using of_char_eq_iff[of c d, where 'a = nat] by (metis linorder_neqE_nat)
  with 4 show ?case by auto
qed simp_all

lemma set_key_insert: "set (key_insert e rs) = insert e (set rs)"
  by (induction rs) auto

lemma key_insert_in_order:
  assumes "sorted_wrt (\<lambda>a b. key_less (log_id a) (log_id b)) rs" "log_id e \<notin> log_id ` set rs"
  shows "sorted_wrt (\<lambda>a b. key_less (log_id a) (log_id b)) (key_insert e rs)"
  using assms
proof (induction rs)
  case Nil
  then show ?case by simp
next
  case (Cons r rs)
  show ?case
  proof (cases "key_less (log_id e) (log_id r)")
    case True
    with Cons.prems show ?thesis by (auto simp: set_key_insert intro: key_less_trans)
  next
    case False
    with Cons.prems have "key_less (log_id r) (log_id e)" using key_less_total[of "log_id e" "log_id r"] by auto
    with False Cons show ?thesis by (auto simp: set_key_insert)
  qed
qed

subsection \<open>Expiry\<close>

lemma cursor_walk_filter: "cursor_walk cs rs = filter (\<lambda>r. log_id r \<notin> log_id ` set cs) rs"
  by (induction cs arbitrary: rs) (auto simp: store_delete_def intro: filter_cong)

text \<open>With unique keys, a cursor over the records that satisfy \<open>P\<close> leaves the others.\<close>

lemma cursor_walk_range:
  assumes "distinct (map log_id rs)"
  shows "cursor_walk (sort_key f (filter P rs)) rs = filter (\<lambda>r. \<not> P r) rs"
proof -
  have inj: "inj_on log_id (set rs)"
    using assms by (simp add: distinct_map)
  have "filter (\<lambda>r. log_id r \<notin> log_id ` set (sort_key f (filter P rs))) rs
      = filter (\<lambda>r. \<not> P r) rs"
  proof (rule filter_cong[OF refl])
    fix r assume r: "r \<in> set rs"
    have "(log_id r \<in> log_id ` {x \<in> set rs. P x}) = P r"
      using inj r by (auto dest: inj_onD)
    then show "(log_id r \<notin> log_id ` set (sort_key f (filter P rs))) = (\<not> P r)"
      by simp
  qed
  then show ?thesis by (simp add: cursor_walk_filter)
qed

lemma cleanup_rows:
  assumes "unique_keys S" "db S"
  shows "cleanupExpiredLogs t d S =
    (Inr (), S\<lparr>rows := filter (\<lambda>r. \<not> timestamp r \<le> t - d * 24 * 60 * 60 * 1000) (rows S)\<rparr>)"
  using assms unfolding cleanupExpiredLogs_def unique_keys_def Let_def
  by (simp only: cursor_walk_range if_False not_not not_True_eq_False)

text \<open>
  Claim C6, as the code has it. On an open store, an expiry sweep run at time \<open>t\<close>
  with a retention of \<open>retentionDays\<close> succeeds, and afterwards \<^verbatim>\<open>getAllLogs()\<close>
  returns exactly the records whose timestamp is strictly greater than the cutoff
  \<open>t - retentionDays * 24 * 60 * 60 * 1000\<close>, uploaded or not: a record at or
  before the cutoff is deleted, a record after the cutoff survives.
\<close>

theorem expiry_deletes_up_to_cutoff:
  assumes "unique_keys S" and "db S"
  shows "fst (cleanupExpiredLogs t retentionDays S) = Inr ()
     \<and> getAllLogs (snd (cleanupExpiredLogs t retentionDays S)) =
         Inr (filter (\<lambda>r. t - retentionDays * 24 * 60 * 60 * 1000 < timestamp r) (rows S))"
proof -
  have eq: "(\<lambda>r. \<not> timestamp r \<le> t - retentionDays * 24 * 60 * 60 * 1000)
          = (\<lambda>r. t - retentionDays * 24 * 60 * 60 * 1000 < timestamp r)"
    by (rule ext) (simp only: not_le)
  show ?thesis
    unfolding cleanup_rows[OF assms] eq using assms(2) by (simp add: getAllLogs_def)
qed

theorem expiry_deletes_up_to_cutoff_witness:
  "unique_keys \<lparr>db = True, rows = [entry ''a'' 999 False, entry ''b'' 1000 True,
                                    entry ''c'' 1001 False, entry ''d'' 1002 True]\<rparr>
   \<and> getAllLogs (snd (cleanupExpiredLogs 86401000 1
        \<lparr>db = True, rows = [entry ''a'' 999 False, entry ''b'' 1000 True,
                            entry ''c'' 1001 False, entry ''d'' 1002 True]\<rparr>))
      = Inr [entry ''c'' 1001 False, entry ''d'' 1002 True]"
proof -
  let ?S = "\<lparr>db = True, rows = [entry ''a'' 999 False, entry ''b'' 1000 True,
                               entry ''c'' 1001 False, entry ''d'' 1002 True]\<rparr>"
  have u: "unique_keys ?S" by (simp add: unique_keys_def entry_def)
  have d: "db ?S" by simp
  from expiry_deletes_up_to_cutoff[OF u d, of 86401000 1] u show ?thesis
    by (simp add: entry_def)
qed

text \<open>
  Claim C6 as stated fails at the boundary: a record whose timestamp equals the cutoff
  is not older than the cutoff, and the sweep deletes it.
\<close>

theorem expiry_boundary_counterexample:
  "\<not> timestamp (entry ''b'' 1000 False) < 86401000 - 1 * 24 * 60 * 60 * 1000
   \<and> getAllLogs \<lparr>db = True, rows = [entry ''b'' 1000 False]\<rparr> = Inr [entry ''b'' 1000 False]
   \<and> getAllLogs (snd (cleanupExpiredLogs 86401000 1 \<lparr>db = True, rows = [entry ''b'' 1000 False]\<rparr>))
       = Inr []"
  by (simp add: entry_def getAllLogs_def cleanupExpiredLogs_def store_delete_def)

subsection \<open>Marking as uploaded\<close>

lemma set_mark_puts:
  "set (mark_puts ids rs) = {l\<lparr>uploaded := True\<rparr> | l i. i \<in> set ids \<and> store_get i rs = Some l}"
proof (induction ids)
  case Nil
  then show ?case by (simp add: mark_puts_def)
next
  case (Cons i ids)
  have step: "mark_puts (i # ids) rs =
      (case store_get i rs of None \<Rightarrow> mark_puts ids rs
       | Some l \<Rightarrow> l\<lparr>uploaded := True\<rparr> # mark_puts ids rs)"
    by (simp add: mark_puts_def split: option.split)
  show ?case
  proof (cases "store_get i rs")
    case None
    with Cons.IH step show ?thesis by auto
  next
    case (Some l)
    with Cons.IH step show ?thesis by auto
  qed
qed

lemma find_mark_puts:
  "find (\<lambda>l. log_id l = k) (rev (mark_puts ids rs)) =
     (if k \<in> set ids then map_option (\<lambda>l. l\<lparr>uploaded := True\<rparr>) (store_get k rs) else None)"
proof (cases "k \<in> set ids \<and> store_get k rs \<noteq> None")
  case True
  then obtain l where l: "store_get k rs = Some l" and k: "k \<in> set ids" by auto
  have "find (\<lambda>l. log_id l = k) (rev (mark_puts ids rs)) = Some (l\<lparr>uploaded := True\<rparr>)"
  proof (rule find_unique)
    show "l\<lparr>uploaded := True\<rparr> \<in> set (rev (mark_puts ids rs))"
      using l k by (auto simp: set_mark_puts)
    show "log_id (l\<lparr>uploaded := True\<rparr>) = k"
      using store_get_log_id[OF l] by simp
    show "\<forall>y\<in>set (rev (mark_puts ids rs)). log_id y = k \<longrightarrow> y = l\<lparr>uploaded := True\<rparr>"
    proof (intro ballI impI)
      fix y assume y: "y \<in> set (rev (mark_puts ids rs))" and yk: "log_id y = k"
      from y obtain l' i where y': "y = l'\<lparr>uploaded := True\<rparr>" and g: "store_get i rs = Some l'"
        by (auto simp: set_mark_puts)
      from store_get_log_id[OF g] y' yk have "i = k" by simp
      with g l have "l' = l" by simp
      with y' show "y = l\<lparr>uploaded := True\<rparr>" by simp
    qed
  qed
  with l k show ?thesis by simp
next
  case False
  have "\<not> (\<exists>y. y \<in> set (rev (mark_puts ids rs)) \<and> log_id y = k)"
  proof
    assume "\<exists>y. y \<in> set (rev (mark_puts ids rs)) \<and> log_id y = k"
    then obtain y where y: "y \<in> set (rev (mark_puts ids rs))" and yk: "log_id y = k" by blast
    from y obtain l' i where y': "y = l'\<lparr>uploaded := True\<rparr>" and i: "i \<in> set ids"
      and g: "store_get i rs = Some l'"
      by (auto simp: set_mark_puts)
    from store_get_log_id[OF g] y' yk have "i = k" by simp
    with i g False show False by simp
  qed
  then have "find (\<lambda>l. log_id l = k) (rev (mark_puts ids rs)) = None"
    by (simp add: find_None_iff)
  with False show ?thesis by (cases "store_get k rs") auto
qed

lemma markAsUploaded_unfold:
  "markAsUploaded ids S =
     (if \<not> db S \<or> ids = [] then (Inr (), S)
      else (Inr (), S\<lparr>rows := foldl (\<lambda>rs log. store_put log rs) (rows S) (mark_puts ids (rows S))\<rparr>))"
  by (simp add: markAsUploaded_def mark_puts_def Let_def)

lemma store_get_marked:
  "store_get k (rows (snd (markAsUploaded ids S))) =
     (if k \<in> set ids \<and> db S then map_option (\<lambda>l. l\<lparr>uploaded := True\<rparr>) (store_get k (rows S))
      else store_get k (rows S))"
proof (cases "\<not> db S \<or> ids = []")
  case True
  then show ?thesis by (auto simp: markAsUploaded_unfold)
next
  case False
  then have "store_get k (rows (snd (markAsUploaded ids S))) =
      (case find (\<lambda>l. log_id l = k) (rev (mark_puts ids (rows S))) of
         Some l \<Rightarrow> Some l | None \<Rightarrow> store_get k (rows S))"
    by (simp add: markAsUploaded_unfold store_get_fold_put)
  with False show ?thesis
    by (cases "store_get k (rows S)") (simp_all add: find_mark_puts)
qed

lemma db_marked: "db (snd (markAsUploaded ids S)) = db S"
  by (simp add: markAsUploaded_unfold)

lemma fst_marked: "fst (markAsUploaded ids S) = Inr ()"
  by (simp add: markAsUploaded_unfold)

lemma mark_noop:
  assumes "\<forall>i\<in>set ids. \<forall>l. store_get i (rows S) = Some l \<longrightarrow> uploaded l"
  shows "markAsUploaded ids S = (Inr (), S)"
proof -
  have "\<forall>l \<in> set (mark_puts ids (rows S)). store_get (log_id l) (rows S) = Some l"
  proof
    fix p assume "p \<in> set (mark_puts ids (rows S))"
    then obtain l i where p: "p = l\<lparr>uploaded := True\<rparr>" and i: "i \<in> set ids"
      and g: "store_get i (rows S) = Some l"
      by (auto simp: set_mark_puts)
    from assms i g have "uploaded l" by blast
    then have "p = l" using p by simp
    with g store_get_log_id[OF g] show "store_get (log_id p) (rows S) = Some p" by simp
  qed
  then have "foldl (\<lambda>rs log. store_put log rs) (rows S) (mark_puts ids (rows S)) = rows S"
    by (rule fold_put_noop)
  then show ?thesis by (simp add: markAsUploaded_unfold)
qed

lemma mark_twice: "markAsUploaded ids (snd (markAsUploaded ids S)) = markAsUploaded ids S"
proof (cases "db S")
  case False
  then show ?thesis by (simp add: markAsUploaded_unfold)
next
  case True
  let ?S' = "snd (markAsUploaded ids S)"
  have "\<forall>i\<in>set ids. \<forall>l. store_get i (rows ?S') = Some l \<longrightarrow> uploaded l"
  proof (intro ballI allI impI)
    fix i l assume i: "i \<in> set ids" and g: "store_get i (rows ?S') = Some l"
    with True have "map_option (\<lambda>l. l\<lparr>uploaded := True\<rparr>) (store_get i (rows S)) = Some l"
      by (simp add: store_get_marked)
    then obtain l0 where "l = l0\<lparr>uploaded := True\<rparr>" by auto
    then show "uploaded l" by simp
  qed
  then have "markAsUploaded ids ?S' = (Inr (), ?S')" by (rule mark_noop)
  also have "\<dots> = markAsUploaded ids S"
    using fst_marked[of ids S] by (metis prod.collapse)
  finally show ?thesis .
qed

text \<open>
  Claim C7. \<^verbatim>\<open>markAsUploaded\<close> is idempotent: for every store and every list of ids,
  marking the same ids a second time leaves the store as the first call left it, and
  returns the same; marking ids that are all either absent from the store or already
  uploaded changes nothing and resolves; no call rejects, so a missing id is not an
  error; and each id is updated on its own: after the call, the record under a key \<open>k\<close>
  is the record that was there, marked uploaded exactly when \<open>k\<close> is among the ids
  (and the database is open), whatever the other ids are.
\<close>

theorem markAsUploaded_idempotent:
  "markAsUploaded ids (snd (markAsUploaded ids S)) = markAsUploaded ids S
   \<and> ((\<forall>i\<in>set ids. \<forall>l. store_get i (rows S) = Some l \<longrightarrow> uploaded l)
        \<longrightarrow> markAsUploaded ids S = (Inr (), S))
   \<and> fst (markAsUploaded ids S) = Inr ()
   \<and> (\<forall>k. store_get k (rows (snd (markAsUploaded ids S))) =
          (if k \<in> set ids \<and> db S
           then map_option (\<lambda>l. l\<lparr>uploaded := True\<rparr>) (store_get k (rows S))
           else store_get k (rows S)))"
  using mark_twice mark_noop fst_marked store_get_marked by blast

theorem markAsUploaded_idempotent_witness:
  "markAsUploaded [''a'', ''zz'', ''b'']
      (snd (markAsUploaded [''a'', ''zz'', ''b'']
         \<lparr>db = True, rows = [entry ''a'' 1 False, entry ''b'' 2 True, entry ''c'' 3 False]\<rparr>))
    = (Inr (), \<lparr>db = True, rows = [entry ''a'' 1 True, entry ''b'' 2 True, entry ''c'' 3 False]\<rparr>)
   \<and> markAsUploaded [''b'', ''zz'']
        \<lparr>db = True, rows = [entry ''a'' 1 False, entry ''b'' 2 True, entry ''c'' 3 False]\<rparr>
      = (Inr (), \<lparr>db = True, rows = [entry ''a'' 1 False, entry ''b'' 2 True, entry ''c'' 3 False]\<rparr>)"
proof -
  let ?S = "\<lparr>db = True, rows = [entry ''a'' 1 False, entry ''b'' 2 True, entry ''c'' 3 False]\<rparr>"
  have once: "markAsUploaded [''a'', ''zz'', ''b''] ?S
      = (Inr (), \<lparr>db = True, rows = [entry ''a'' 1 True, entry ''b'' 2 True, entry ''c'' 3 False]\<rparr>)"
    by (simp add: markAsUploaded_def store_get_def entry_def)
  have pre: "\<forall>i\<in>set [''b'', ''zz'']. \<forall>l. store_get i (rows ?S) = Some l \<longrightarrow> uploaded l"
    by (simp add: store_get_def entry_def)
  from markAsUploaded_idempotent[of "[''a'', ''zz'', ''b'']" ?S] once
  have "markAsUploaded [''a'', ''zz'', ''b''] (snd (markAsUploaded [''a'', ''zz'', ''b''] ?S))
      = (Inr (), \<lparr>db = True, rows = [entry ''a'' 1 True, entry ''b'' 2 True, entry ''c'' 3 False]\<rparr>)"
    by simp
  moreover from markAsUploaded_idempotent[of "[''b'', ''zz'']" ?S] pre
  have "markAsUploaded [''b'', ''zz''] ?S = (Inr (), ?S)" by blast
  ultimately show ?thesis by blast
qed

section \<open>The idle detector without a window\<close>

lemma start_armed: "armed T t0 (onIdle (new_IdleDetector T (fresh_host False t0)))"
  by (simp add: armed_def onIdle_def new_IdleDetector_def fresh_host_def resetTimer_def setTimeout_def Let_def)

lemma armed_early: "armed T t0 s \<Longrightarrow> t < t0 + T \<Longrightarrow> armed T t0 (advance_to t s)"
  by (cases s) (simp add: armed_def advance_to_def)

lemma armed_late: "armed T t0 s \<Longrightarrow> t0 + T \<le> t \<Longrightarrow> spent T t0 (advance_to t s)"
  by (cases s) (simp add: armed_def spent_def advance_to_def timeout_handler_def max_def)

lemma spent_advance: "spent T t0 s \<Longrightarrow> spent T t0 (advance_to t s)"
  by (cases s) (simp add: spent_def advance_to_def)

lemma armed_activity: "armed T t0 s \<Longrightarrow> activity s = s"
  by (cases s) (simp add: armed_def activity_def)

lemma spent_activity: "spent T t0 s \<Longrightarrow> activity s = s"
  by (cases s) (simp add: spent_def activity_def)

lemma idle_run_snoc: "idle_run (hs @ [h]) s = happen h (idle_run hs s)"
  by (simp add: idle_run_def)

lemma idle_run_cases:
  "(if \<exists>t. Elapse t \<in> set hs \<and> t0 + T \<le> t then spent T t0 else armed T t0)
     (idle_run hs (onIdle (new_IdleDetector T (fresh_host False t0))))"
proof (induction hs rule: rev_induct)
  case Nil
  then show ?case by (simp add: idle_run_def start_armed)
next
  case (snoc h hs)
  let ?s = "idle_run hs (onIdle (new_IdleDetector T (fresh_host False t0)))"
  show ?case
  proof (cases h)
    case Activity
    with snoc show ?thesis
      by (auto simp: idle_run_snoc armed_activity spent_activity split: if_splits)
  next
    case (Elapse t)
    show ?thesis
    proof (cases "\<exists>t. Elapse t \<in> set hs \<and> t0 + T \<le> t")
      case True
      with snoc have "spent T t0 ?s" by simp
      then have "spent T t0 (advance_to t ?s)" by (rule spent_advance)
      moreover from True have "\<exists>t. Elapse t \<in> set (hs @ [h]) \<and> t0 + T \<le> t" by auto
      ultimately show ?thesis using Elapse by (simp only: idle_run_snoc happen.simps if_True)
    next
      case False
      with snoc have a: "armed T t0 ?s" by simp
      show ?thesis
      proof (cases "t0 + T \<le> t")
        case True
        then have "\<exists>t. Elapse t \<in> set (hs @ [h]) \<and> t0 + T \<le> t" using Elapse by auto
        moreover have "spent T t0 (advance_to t ?s)" using a True by (rule armed_late)
        ultimately show ?thesis using Elapse by (simp only: idle_run_snoc happen.simps if_True)
      next
        case F2: False
        then have "\<not> (\<exists>t. Elapse t \<in> set (hs @ [h]) \<and> t0 + T \<le> t)" using Elapse False by auto
        moreover have "armed T t0 (advance_to t ?s)" using a F2 by (simp add: armed_early)
        ultimately show ?thesis using Elapse by (simp only: idle_run_snoc happen.simps if_False)
      qed
    qed
  qed
qed

lemma reached_iff: "reached d hs \<longleftrightarrow> (\<exists>t. Elapse t \<in> set hs \<and> d \<le> t)"
  by (induction d hs rule: reached.induct) auto

lemma idle_run_reached:
  "(if reached (t0 + T) hs then spent T t0 else armed T t0)
     (idle_run hs (onIdle (new_IdleDetector T (fresh_host False t0))))"
  using idle_run_cases[of hs t0 T] by (simp only: reached_iff)

text \<open>
  Claim C8, as the code has it. In a host without \<^verbatim>\<open>window\<close>, a detector with timeout
  \<open>T\<close> made at time \<open>t0\<close>, with a callback registered, is a one-shot timer: whatever
  time passes and whatever events occur, the callback has been invoked exactly once, at
  \<open>t0 + T\<close>, as soon as time has reached \<open>t0 + T\<close>, and not at all before; once it has
  fired no timeout is pending, so the callback is never invoked again.
\<close>

theorem idle_fires_once_without_window:
  "invocations (snd (idle_run hs (onIdle (new_IdleDetector T (fresh_host False t0)))))
     = (if reached (t0 + T) hs then [t0 + T] else [])
   \<and> pending (snd (idle_run hs (onIdle (new_IdleDetector T (fresh_host False t0)))))
     = (if reached (t0 + T) hs then [] else [(1, t0 + T)])"
proof (cases "reached (t0 + T) hs")
  case True
  with idle_run_reached[of t0 T hs]
  have "spent T t0 (idle_run hs (onIdle (new_IdleDetector T (fresh_host False t0))))"
    by (simp only: if_True)
  with True show ?thesis by (simp only: spent_def if_True simp_thms)
next
  case False
  with idle_run_reached[of t0 T hs]
  have "armed T t0 (idle_run hs (onIdle (new_IdleDetector T (fresh_host False t0))))"
    by (simp only: if_False)
  with False show ?thesis by (simp only: armed_def if_False simp_thms)
qed

theorem idle_fires_once_without_window_witness:
  "invocations (snd (idle_run [Elapse 4000, Activity, Elapse 5000, Elapse 10000, Elapse 15000]
       (onIdle (new_IdleDetector 5000 (fresh_host False 0))))) = [5000]
   \<and> pending (snd (idle_run [Elapse 4000, Activity, Elapse 5000, Elapse 10000, Elapse 15000]
       (onIdle (new_IdleDetector 5000 (fresh_host False 0))))) = []"
  using idle_fires_once_without_window[of "[Elapse 4000, Activity, Elapse 5000, Elapse 10000, Elapse 15000]" 5000 0]
  by simp

text \<open>
  Claim C8 as stated fails: with a timeout of 5000 ms, after two quiet periods the
  callback has been invoked once, not twice, and after the first no timeout is pending.
\<close>

theorem idle_not_recurring_counterexample:
  "invocations (snd (advance_to 10000 (advance_to 5000
       (onIdle (new_IdleDetector 5000 (fresh_host False 0)))))) = [5000]
   \<and> pending (snd (advance_to 5000 (onIdle (new_IdleDetector 5000 (fresh_host False 0))))) = []"
  by (simp add: onIdle_def new_IdleDetector_def fresh_host_def resetTimer_def setTimeout_def
        advance_to_def timeout_handler_def Let_def)

section \<open>The sweep of the upload manager\<close>

lemma slice_take_drop:
  assumes "0 < b"
  shows "slice xs (int n) (int n + b) = take (nat b) (drop n xs)"
proof (cases "n \<le> length xs")
  case True
  with assms have "nat (min (int n + b) (int (length xs)) - int n) = min (nat b) (length xs - n)"
    by (simp add: min_def) linarith
  moreover have "take (min (nat b) (length xs - n)) (drop n xs) = take (nat b) (drop n xs)"
    by (simp add: min_def)
  ultimately show ?thesis using True assms
    by (simp add: slice_def Let_def min_absorb1)
next
  case False
  with assms show ?thesis by (simp add: slice_def Let_def min_def)
qed

lemma chunks_Nil [simp]: "chunks b [] = []"
  by (simp add: chunks.simps)

lemma chunks_step: "xs \<noteq> [] \<Longrightarrow> 0 < b \<Longrightarrow> chunks b xs = take b xs # chunks b (drop b xs)"
  by (subst chunks.simps) simp

lemma loop_chunks:
  assumes "0 < um_batchSize M"
  shows "uploadBatches M logs (int n) w =
     Some (Inr (), send_all (um_uploader M) (chunks (nat (um_batchSize M)) (drop n logs)) w)"
proof (induction "length logs - n" arbitrary: n w rule: less_induct)
  case less
  show ?case
  proof (cases "n < length logs")
    case False
    then show ?thesis by (subst uploadBatches.simps) simp
  next
    case True
    let ?b = "um_batchSize M"
    let ?batch = "take (nat ?b) (drop n logs)"
    obtain r w1 where up: "LogUploader_uploadLogs (um_uploader M) ?batch w = (r, w1)"
      by (cases "LogUploader_uploadLogs (um_uploader M) ?batch w")
    obtain S where mk: "markAsUploaded (map log_id ?batch) (storage w1) = (Inr (), S)"
      using fst_marked[of "map log_id ?batch" "storage w1"]
      by (cases "markAsUploaded (map log_id ?batch) (storage w1)") simp
    have ch: "chunks (nat ?b) (drop n logs) = ?batch # chunks (nat ?b) (drop (n + nat ?b) logs)"
      using True assms by (simp add: chunks_step add.commute)
    have nxt: "int n + ?b = int (n + nat ?b)" using assms by simp
    have dec: "length logs - (n + nat ?b) < length logs - n" using True assms by simp
    show ?thesis
    proof (cases r)
      case False
      with True up ch show ?thesis
        by (subst uploadBatches.simps) (simp add: slice_take_drop[OF assms])
    next
      case r: True
      have "uploadBatches M logs (int n) w = uploadBatches M logs (int (n + nat ?b)) (w1\<lparr>storage := S\<rparr>)"
        using True up mk r nxt by (subst uploadBatches.simps) (simp add: slice_take_drop[OF assms])
      also have "\<dots> = Some (Inr (), send_all (um_uploader M)
                   (chunks (nat ?b) (drop (n + nat ?b) logs)) (w1\<lparr>storage := S\<rparr>))"
        using less[OF dec] .
      finally show ?thesis using up mk r ch by simp
    qed
  qed
qed

lemma uploadPendingLogs_chunks:
  assumes "0 < um_batchSize M" "\<not> isUploading M" "db (storage w)"
  shows "uploadPendingLogs M w =
     Some (M, send_all (um_uploader M)
                (chunks (nat (um_batchSize M)) (filter (\<lambda>log. \<not> uploaded log) (rows (storage w)))) w)"
proof -
  let ?M1 = "M\<lparr>isUploading := True\<rparr>"
  have M: "?M1\<lparr>isUploading := False\<rparr> = M" using assms(2) by simp
  have b: "0 < um_batchSize ?M1" using assms(1) by simp
  show ?thesis
    using loop_chunks[OF b, of _ 0 w] assms(2,3) M
    by (simp add: uploadPendingLogs_def getUnuploadedLogs_def Let_def)
qed

lemma store_get_None_iff: "store_get k rs = None \<longleftrightarrow> k \<notin> log_id ` set rs"
  by (auto simp: store_get_def find_None_iff)

lemma keys_store_put:
  "log_id l \<in> log_id ` set rs \<Longrightarrow> map log_id (store_put l rs) = map log_id rs"
  by (induction rs) auto

lemma keys_fold_put:
  "\<forall>l\<in>set ps. log_id l \<in> log_id ` set rs \<Longrightarrow>
     map log_id (foldl (\<lambda>rs log. store_put log rs) rs ps) = map log_id rs"
proof (induction ps arbitrary: rs)
  case Nil
  then show ?case by simp
next
  case (Cons p ps)
  have k: "map log_id (store_put p rs) = map log_id rs"
    using Cons.prems by (simp add: keys_store_put)
  then have "log_id ` set (store_put p rs) = log_id ` set rs"
    by (metis set_map)
  with Cons.prems have "\<forall>l\<in>set ps. log_id l \<in> log_id ` set (store_put p rs)" by simp
  from Cons.IH[OF this] k show ?case by simp
qed

lemma rows_ext:
  assumes "map log_id xs = map log_id ys" "distinct (map log_id xs)"
    and "\<And>k. store_get k xs = store_get k ys"
  shows "xs = ys"
  using assms
proof (induction xs arbitrary: ys)
  case Nil
  then show ?case by simp
next
  case (Cons x xs)
  from Cons.prems(1) obtain y ys' where ys: "ys = y # ys'" and xy: "log_id x = log_id y"
    and keys: "map log_id xs = map log_id ys'"
    by (cases ys) auto
  from Cons.prems(3)[of "log_id x"] ys xy have "x = y" by (simp add: store_get_def)
  have notin: "log_id x \<notin> log_id ` set xs" using Cons.prems(2) by auto
  have notin': "log_id x \<notin> log_id ` set ys'" using notin keys by (metis set_map)
  have "\<And>k. store_get k xs = store_get k ys'"
  proof -
    fix k
    show "store_get k xs = store_get k ys'"
    proof (cases "k = log_id x")
      case True
      with notin notin' show ?thesis by (simp add: store_get_None_iff[symmetric])
    next
      case False
      with Cons.prems(3)[of k] ys xy show ?thesis by (simp add: store_get_def)
    qed
  qed
  with Cons.IH[OF keys] Cons.prems(2) have "xs = ys'" by simp
  with \<open>x = y\<close> ys show ?case by simp
qed

lemma keys_mark_rows [simp]: "map log_id (mark_rows ids rs) = map log_id rs"
  by (simp add: mark_rows_def)

lemma store_get_mark_rows:
  "store_get k (mark_rows ids rs) =
     map_option (\<lambda>l. if k \<in> set ids then l\<lparr>uploaded := True\<rparr> else l) (store_get k rs)"
  by (induction rs) (auto simp: mark_rows_def store_get_def)

lemma mark_rows_append: "mark_rows ys (mark_rows xs rs) = mark_rows (xs @ ys) rs"
  by (induction rs) (auto simp: mark_rows_def)

lemma mark_rows_Nil [simp]: "mark_rows [] rs = rs"
  by (simp add: mark_rows_def)

lemma markAsUploaded_mark_rows:
  assumes "unique_keys S" "db S"
  shows "markAsUploaded ids S = (Inr (), S\<lparr>rows := mark_rows ids (rows S)\<rparr>)"
proof (cases "ids = []")
  case True
  then show ?thesis by (simp add: markAsUploaded_unfold)
next
  case False
  let ?rs' = "foldl (\<lambda>rs log. store_put log rs) (rows S) (mark_puts ids (rows S))"
  have S': "markAsUploaded ids S = (Inr (), S\<lparr>rows := ?rs'\<rparr>)"
    using False assms(2) by (simp add: markAsUploaded_unfold)
  have "\<forall>l\<in>set (mark_puts ids (rows S)). log_id l \<in> log_id ` set (rows S)"
  proof
    fix p assume "p \<in> set (mark_puts ids (rows S))"
    then obtain l i where p: "p = l\<lparr>uploaded := True\<rparr>" and g: "store_get i (rows S) = Some l"
      by (auto simp: set_mark_puts)
    from g have "l \<in> set (rows S)" by (auto simp: store_get_def find_Some_iff)
    with p show "log_id p \<in> log_id ` set (rows S)" by force
  qed
  then have keys: "map log_id ?rs' = map log_id (mark_rows ids (rows S))"
    by (simp add: keys_fold_put)
  have dist: "distinct (map log_id ?rs')"
    using keys assms(1) by (simp add: unique_keys_def)
  have get: "\<And>k. store_get k ?rs' = store_get k (mark_rows ids (rows S))"
  proof -
    fix k
    have "store_get k ?rs' = store_get k (rows (snd (markAsUploaded ids S)))"
      by (simp add: S')
    also have "\<dots> = store_get k (mark_rows ids (rows S))"
      using assms(2) by (cases "store_get k (rows S)") (simp_all add: store_get_marked store_get_mark_rows)
    finally show "store_get k ?rs' = store_get k (mark_rows ids (rows S))" .
  qed
  have "?rs' = mark_rows ids (rows S)"
    using keys dist get by (rule rows_ext)
  with S' show ?thesis by simp
qed

lemma unique_keys_mark_rows: "unique_keys S \<Longrightarrow> unique_keys (S\<lparr>rows := mark_rows ids (rows S)\<rparr>)"
  by (simp add: unique_keys_def)

lemma uploadLogs_effect:
  "LogUploader_uploadLogs U logs w = (r, w1) \<Longrightarrow>
     sink_calls w1 = sink_calls w @ [(uploader_serverUrl U, logs, r)] \<and> storage w1 = storage w"
  by (auto simp: LogUploader_uploadLogs_def console_out_def Let_def split: if_splits fetch_outcome.splits)

lemma send_all_calls:
  "\<exists>calls. sink_calls (send_all U cs w) = sink_calls w @ calls
     \<and> map (fst \<circ> snd) calls = take (length calls) cs
     \<and> (\<forall>c\<in>set (butlast calls). snd (snd c))
     \<and> (\<forall>c\<in>set calls. fst c = uploader_serverUrl U)
     \<and> (cs \<noteq> [] \<longrightarrow> calls \<noteq> [])"
proof (induction cs arbitrary: w)
  case Nil
  then show ?case by simp
next
  case (Cons c cs)
  obtain r w1 where up: "LogUploader_uploadLogs U c w = (r, w1)"
    by (cases "LogUploader_uploadLogs U c w")
  note eff = uploadLogs_effect[OF up]
  show ?case
  proof (cases r)
    case False
    with up eff show ?thesis by simp
  next
    case True
    let ?w2 = "w1\<lparr>storage := snd (markAsUploaded (map log_id c) (storage w1))\<rparr>"
    from Cons.IH[of ?w2] obtain calls where
      c1: "sink_calls (send_all U cs ?w2) = sink_calls ?w2 @ calls"
      and c2: "map (fst \<circ> snd) calls = take (length calls) cs"
      and c3: "\<forall>c\<in>set (butlast calls). snd (snd c)"
      and c4: "\<forall>c\<in>set calls. fst c = uploader_serverUrl U"
      by blast
    let ?calls = "(uploader_serverUrl U, c, True) # calls"
    have "sink_calls (send_all U (c # cs) w) = sink_calls w @ ?calls"
      using up True eff c1 by simp
    moreover have "map (fst \<circ> snd) ?calls = take (length ?calls) (c # cs)"
      using c2 by simp
    moreover have "\<forall>c\<in>set (butlast ?calls). snd (snd c)"
      using c3 by (cases calls) auto
    moreover have "\<forall>c\<in>set ?calls. fst c = uploader_serverUrl U"
      using c4 by simp
    ultimately show ?thesis by blast
  qed
qed

lemma send_all_rows:
  assumes "unique_keys (storage w)" "db (storage w)"
  shows "storage (send_all U cs w) =
     (storage w)\<lparr>rows := mark_rows (acknowledged (drop (length (sink_calls w)) (sink_calls (send_all U cs w))))
                             (rows (storage w))\<rparr>"
  using assms
proof (induction cs arbitrary: w)
  case Nil
  then show ?case by (simp add: acknowledged_def)
next
  case (Cons c cs)
  obtain r w1 where up: "LogUploader_uploadLogs U c w = (r, w1)"
    by (cases "LogUploader_uploadLogs U c w")
  note eff = uploadLogs_effect[OF up]
  show ?case
  proof (cases r)
    case False
    with up eff show ?thesis by (simp add: acknowledged_def)
  next
    case True
    let ?S2 = "(storage w)\<lparr>rows := mark_rows (map log_id c) (rows (storage w))\<rparr>"
    let ?w2 = "w1\<lparr>storage := ?S2\<rparr>"
    have mk: "snd (markAsUploaded (map log_id c) (storage w1)) = ?S2"
      using eff Cons.prems by (simp add: markAsUploaded_mark_rows)
    have run: "send_all U (c # cs) w = send_all U cs ?w2"
      using up True mk by simp
    have u2: "unique_keys (storage ?w2)" using Cons.prems(1) by (simp add: unique_keys_def)
    have d2: "db (storage ?w2)" using Cons.prems(2) by simp
    obtain calls where calls: "sink_calls (send_all U cs ?w2) = sink_calls ?w2 @ calls"
      using send_all_calls[of U cs ?w2] by blast
    have sc2: "sink_calls ?w2 = sink_calls w @ [(uploader_serverUrl U, c, True)]"
      using eff True by simp
    have d1: "drop (length (sink_calls ?w2)) (sink_calls (send_all U cs ?w2)) = calls"
      using calls by simp
    have d0: "drop (length (sink_calls w)) (sink_calls (send_all U cs ?w2))
          = (uploader_serverUrl U, c, True) # calls"
      using calls sc2 by simp
    have "storage (send_all U cs ?w2) =
        (storage ?w2)\<lparr>rows := mark_rows (acknowledged calls) (rows (storage ?w2))\<rparr>"
      using Cons.IH[OF u2 d2] d1 by simp
    also have "\<dots> = (storage w)\<lparr>rows := mark_rows (map log_id c @ acknowledged calls) (rows (storage w))\<rparr>"
      by (simp add: mark_rows_append)
    also have "map log_id c @ acknowledged calls = acknowledged ((uploader_serverUrl U, c, True) # calls)"
      by (simp add: acknowledged_def)
    finally show ?thesis using run d0 by simp
  qed
qed

lemma sweep_as_chunks:
  assumes "0 < um_batchSize M" "\<not> isUploading M" "getUnuploadedLogs (storage w) = Inr unuploadedLogs"
  shows "uploadPendingLogs M w =
     Some (M, send_all (um_uploader M) (chunks (nat (um_batchSize M)) unuploadedLogs) w)"
proof -
  from assms(3) have "db (storage w)" and "unuploadedLogs = filter (\<lambda>log. \<not> uploaded log) (rows (storage w))"
    by (auto simp: getUnuploadedLogs_def split: if_splits)
  with uploadPendingLogs_chunks[OF assms(1,2)] show ?thesis by simp
qed

text \<open>
  Claim C5. A sweep with a positive batch size \<open>b\<close>, started while no upload is in
  flight on an open store, ends; the calls it makes to the sink carry the consecutive
  batches of at most \<open>b\<close> un-uploaded records, in sequence; every call but the last
  one returned true, so the first failure ends the sweep; and the store afterwards is
  the store before with exactly the records of the batches that the sink accepted
  marked as uploaded. In particular, with \<open>2 * b\<close> un-uploaded records and a sink that
  fails on the first batch, the sweep makes that one call only and leaves the store as
  it was.
\<close>

theorem sweep_fail_fast:
  assumes "0 < um_batchSize M" and "\<not> isUploading M" and "unique_keys (storage w)"
    and "getUnuploadedLogs (storage w) = Inr unuploadedLogs"
  shows "\<exists>w'. uploadPendingLogs M w = Some (M, w')
     \<and> map (fst \<circ> snd) (new_calls w w')
         = take (length (new_calls w w')) (chunks (nat (um_batchSize M)) unuploadedLogs)
     \<and> (\<forall>c\<in>set (butlast (new_calls w w')). snd (snd c))
     \<and> storage w' = (storage w)\<lparr>rows := mark_rows (acknowledged (new_calls w w')) (rows (storage w))\<rparr>
     \<and> (length unuploadedLogs = 2 * nat (um_batchSize M)
          \<and> \<not> fst (LogUploader_uploadLogs (um_uploader M) (take (nat (um_batchSize M)) unuploadedLogs) w)
         \<longrightarrow> new_calls w w' = [(uploader_serverUrl (um_uploader M), take (nat (um_batchSize M)) unuploadedLogs, False)]
             \<and> storage w' = storage w)"
proof -
  let ?b = "nat (um_batchSize M)"
  let ?U = "um_uploader M"
  let ?w' = "send_all ?U (chunks ?b unuploadedLogs) w"
  have db: "db (storage w)" using assms(4) by (auto simp: getUnuploadedLogs_def split: if_splits)
  have run: "uploadPendingLogs M w = Some (M, ?w')"
    using sweep_as_chunks[OF assms(1,2,4)] .
  obtain calls where calls: "sink_calls ?w' = sink_calls w @ calls"
    and batches: "map (fst \<circ> snd) calls = take (length calls) (chunks ?b unuploadedLogs)"
    and ok: "\<forall>c\<in>set (butlast calls). snd (snd c)"
    using send_all_calls[of ?U "chunks ?b unuploadedLogs" w] by blast
  have nc: "new_calls w ?w' = calls" using calls by (simp add: new_calls_def)
  have rows: "storage ?w' = (storage w)\<lparr>rows := mark_rows (acknowledged (new_calls w ?w')) (rows (storage w))\<rparr>"
    using send_all_rows[OF assms(3) db, of ?U "chunks ?b unuploadedLogs"] by (simp add: new_calls_def)
  have two: "new_calls w ?w' = [(uploader_serverUrl ?U, take ?b unuploadedLogs, False)] \<and> storage ?w' = storage w"
    if len: "length unuploadedLogs = 2 * ?b" and fail: "\<not> fst (LogUploader_uploadLogs ?U (take ?b unuploadedLogs) w)"
  proof -
    have "0 < ?b" using assms(1) by simp
    with len have ne: "unuploadedLogs \<noteq> []" by auto
    obtain r w1 where up: "LogUploader_uploadLogs ?U (take ?b unuploadedLogs) w = (r, w1)"
      by (cases "LogUploader_uploadLogs ?U (take ?b unuploadedLogs) w")
    with fail have r: "\<not> r" by simp
    have "?w' = w1"
      using chunks_step[OF ne \<open>0 < ?b\<close>] up r by simp
    with uploadLogs_effect[OF up] r show ?thesis by (simp add: new_calls_def)
  qed
  have "uploadPendingLogs M w = Some (M, ?w')
     \<and> map (fst \<circ> snd) (new_calls w ?w')
         = take (length (new_calls w ?w')) (chunks ?b unuploadedLogs)
     \<and> (\<forall>c\<in>set (butlast (new_calls w ?w')). snd (snd c))
     \<and> storage ?w' = (storage w)\<lparr>rows := mark_rows (acknowledged (new_calls w ?w')) (rows (storage w))\<rparr>
     \<and> (length unuploadedLogs = 2 * ?b
          \<and> \<not> fst (LogUploader_uploadLogs ?U (take ?b unuploadedLogs) w)
         \<longrightarrow> new_calls w ?w' = [(uploader_serverUrl ?U, take ?b unuploadedLogs, False)]
             \<and> storage ?w' = storage w)"
    using run batches ok rows two by (simp only: nc simp_thms) blast
  then show ?thesis by (rule exI)
qed

theorem sweep_fail_fast_witness:
  "\<exists>w'. uploadPendingLogs (new_UploadManager (new_LogUploader ''u'') Idle 1)
            (quiet_world [entry ''a'' 1 False, entry ''b'' 2 False] (fetch_always ResponseNotOk))
          = Some (new_UploadManager (new_LogUploader ''u'') Idle 1, w')
      \<and> new_calls (quiet_world [entry ''a'' 1 False, entry ''b'' 2 False] (fetch_always ResponseNotOk)) w'
          = [(''u'', [entry ''a'' 1 False], False)]
      \<and> rows (storage w') = [entry ''a'' 1 False, entry ''b'' 2 False]"
proof -
  let ?M = "new_UploadManager (new_LogUploader ''u'') Idle 1"
  let ?w = "quiet_world [entry ''a'' 1 False, entry ''b'' 2 False] (fetch_always ResponseNotOk)"
  have h1: "0 < um_batchSize ?M" by (simp add: new_UploadManager_def)
  have h2: "\<not> isUploading ?M" by (simp add: new_UploadManager_def)
  have h3: "unique_keys (storage ?w)" by (simp add: unique_keys_def quiet_world_def entry_def)
  have h4: "getUnuploadedLogs (storage ?w) = Inr [entry ''a'' 1 False, entry ''b'' 2 False]"
    by (simp add: getUnuploadedLogs_def quiet_world_def entry_def)
  have fails: "length [entry ''a'' 1 False, entry ''b'' 2 False] = 2 * nat (um_batchSize ?M)
      \<and> \<not> fst (LogUploader_uploadLogs (um_uploader ?M)
              (take (nat (um_batchSize ?M)) [entry ''a'' 1 False, entry ''b'' 2 False]) ?w)"
    by (simp add: new_UploadManager_def new_LogUploader_def LogUploader_uploadLogs_def
          quiet_world_def fetch_always_def console_out_def)
  from sweep_fail_fast[OF h1 h2 h3 h4] fails
  obtain w' where "uploadPendingLogs ?M ?w = Some (?M, w')"
    and "new_calls ?w w' = [(uploader_serverUrl (um_uploader ?M),
           take (nat (um_batchSize ?M)) [entry ''a'' 1 False, entry ''b'' 2 False], False)]"
    and "storage w' = storage ?w"
    by blast
  then show ?thesis
    by (intro exI[of _ w']) (simp add: new_UploadManager_def new_LogUploader_def quiet_world_def)
qed


text \<open>When every request succeeds, every batch is sent and accepted.\<close>

lemma uploadLogs_fetch: "fetch (snd (LogUploader_uploadLogs U logs w)) = fetch w"
  by (simp add: LogUploader_uploadLogs_def console_out_def Let_def split: fetch_outcome.splits)

lemma uploadLogs_ok:
  "uploader_serverUrl U \<noteq> [] \<Longrightarrow> \<forall>k. fetch w k = ResponseOk \<Longrightarrow> fst (LogUploader_uploadLogs U logs w)"
  by (simp add: LogUploader_uploadLogs_def Let_def)

lemma send_all_all_ok:
  assumes "uploader_serverUrl U \<noteq> []" "\<forall>k. fetch w k = ResponseOk"
  shows "sink_calls (send_all U cs w) = sink_calls w @ map (\<lambda>c. (uploader_serverUrl U, c, True)) cs"
  using assms(2)
proof (induction cs arbitrary: w)
  case Nil
  then show ?case by simp
next
  case (Cons c cs)
  obtain r w1 where up: "LogUploader_uploadLogs U c w = (r, w1)"
    by (cases "LogUploader_uploadLogs U c w")
  have r: "r" using uploadLogs_ok[OF assms(1) Cons.prems, of c] up by simp
  have f: "fetch w1 = fetch w" using uploadLogs_fetch[of U c w] up by simp
  let ?w2 = "w1\<lparr>storage := snd (markAsUploaded (map log_id c) (storage w1))\<rparr>"
  have "\<forall>k. fetch ?w2 k = ResponseOk" using f Cons.prems by simp
  from Cons.IH[OF this] uploadLogs_effect[OF up] up r show ?case by simp
qed

lemma concat_chunks: "0 < b \<Longrightarrow> concat (chunks b xs) = xs"
proof (induction "length xs" arbitrary: xs rule: less_induct)
  case less
  show ?case
  proof (cases "xs = []")
    case True
    then show ?thesis by simp
  next
    case False
    with less.prems have "length (drop b xs) < length xs" by simp
    from less.hyps[OF this less.prems] chunks_step[OF False less.prems] show ?thesis by simp
  qed
qed

lemma acknowledged_all_ok:
  "acknowledged (map (\<lambda>c. (u, c, True)) cs) = map log_id (concat cs)"
  by (induction cs) (simp_all add: acknowledged_def)






text \<open>
  With a batch size of 0 the loop index never moves: every round sends the empty batch,
  which an uploader with a server URL accepts without a request, and the loop never ends.
\<close>

lemma zero_batch_size_diverges:
  assumes "um_batchSize M = 0" "uploader_serverUrl (um_uploader M) \<noteq> []" "logs \<noteq> []"
  shows "uploadBatches M logs 0 w = None"
proof (rule ccontr)
  assume "uploadBatches M logs 0 w \<noteq> None"
  then obtain y where y: "uploadBatches M logs 0 w = Some y" by blast
  have "um_batchSize M = 0 \<and> uploader_serverUrl (um_uploader M) \<noteq> [] \<and> logs \<noteq> [] \<and> i = 0 \<longrightarrow> False"
    if "uploadBatches M logs i w = Some y" for i
    using that
  proof (induction rule: uploadBatches.raw_induct[rotated, consumes 1])
    case (1 f M logs i w y)
    show ?case
    proof (intro impI)
      assume c: "um_batchSize M = 0 \<and> uploader_serverUrl (um_uploader M) \<noteq> [] \<and> logs \<noteq> [] \<and> i = 0"
      then have sl: "slice logs i (i + um_batchSize M) = []" by (simp add: slice_def)
      obtain w1 where up: "LogUploader_uploadLogs (um_uploader M) [] w = (True, w1)"
        using c by (simp add: LogUploader_uploadLogs_def)
      have mk: "markAsUploaded [] (storage w1) = (Inr (), storage w1)"
        by (simp add: markAsUploaded_def)
      from 1(2) c sl up mk have "f M logs 0 (w1\<lparr>storage := storage w1\<rparr>) = Some y"
        by simp
      from 1(1)[OF this] c show False by simp
    qed
  qed
  from this[OF y] assms show False by simp
qed


section \<open>The logger\<close>

subsection \<open>Errors reaching the caller\<close>


lemma init_fails:
  "\<not> initialized L \<Longrightarrow> \<not> idb_opens w \<Longrightarrow>
     Logger_init L w = (Inl FailedToOpenIndexedDB, L, console_out (FailedToInitializeLogger FailedToOpenIndexedDB) w)"
  by (simp add: Logger_init_def storage_init_def)

text \<open>
  Claim C2 fails on the code. \<^verbatim>\<open>log\<close> awaits \<^verbatim>\<open>this.init()\<close> before its \<^verbatim>\<open>try\<close>
  block, and \<^verbatim>\<open>init\<close> rethrows what the storage throws: on a logger that is not
  initialized, in a world where the database cannot be opened, every logging call, at
  every level, rejects with the storage's error; it prints nothing but the error of
  the initialization, creates no entry, and leaves the logger uninitialized, so that
  the next call rejects in the same way.
\<close>

theorem log_rejects_when_store_cannot_open:
  assumes "\<not> initialized L" and "\<not> idb_opens w"
  shows "Logger_log lvl ttl dat ident L w =
     (Inl FailedToOpenIndexedDB, L, console_out (FailedToInitializeLogger FailedToOpenIndexedDB) w)"
  using assms by (simp add: Logger_log_def init_fails)

theorem log_rejects_when_store_cannot_open_witness:
  "Logger_info ''started'' [] ''1-a'' (fst (new_Logger no_options (dead_world []))) (snd (new_Logger no_options (dead_world [])))
     = (Inl FailedToOpenIndexedDB, fst (new_Logger no_options (dead_world [])),
        console_out (FailedToInitializeLogger FailedToOpenIndexedDB) (snd (new_Logger no_options (dead_world []))))
   \<and> console (console_out (FailedToInitializeLogger FailedToOpenIndexedDB) (snd (new_Logger no_options (dead_world []))))
      = [FailedToInitializeLogger FailedToOpenIndexedDB]"
proof -
  let ?L = "fst (new_Logger no_options (dead_world []))"
  let ?w = "snd (new_Logger no_options (dead_world []))"
  have h1: "\<not> initialized ?L" by (simp add: new_Logger_def Let_def)
  have h2: "\<not> idb_opens ?w" by (simp add: new_Logger_def Let_def dead_world_def)
  from log_rejects_when_store_cannot_open[OF h1 h2, of Info "''started''" "[]" "''1-a''"]
  show ?thesis by (simp add: Logger_info_def console_out_def new_Logger_def Let_def dead_world_def)
qed

text \<open>
  The part of claim C2 that holds: once the logger is initialized, or when the database
  opens, a logging call resolves whatever the storage and the upload do.
\<close>

lemma log_resolves_when_initialized:
  "initialized L \<Longrightarrow> fst (Logger_log lvl ttl dat ident L w) = Inr ()"
  by (simp add: Logger_log_def Let_def split: prod.splits sum.splits)

lemma log_after_init:
  "(if \<not> initialized L then Logger_init L w else (Inr (), L, w)) = (Inr u, L1, w1) \<Longrightarrow>
     fst (Logger_log lvl ttl dat ident L w) = Inr ()"
  by (simp add: Logger_log_def Let_def split: prod.splits sum.splits)

lemma init_succeeds:
  "\<not> initialized L \<Longrightarrow> idb_opens w \<Longrightarrow> \<exists>L1 w1. Logger_init L w = (Inr (), L1, w1)"
  by (simp add: Logger_init_def storage_init_def Let_def split: prod.splits)

lemma log_resolves_when_store_opens:
  assumes "idb_opens w"
  shows "fst (Logger_log lvl ttl dat ident L w) = Inr ()"
proof (cases "initialized L")
  case True
  then show ?thesis by (rule log_resolves_when_initialized)
next
  case False
  from init_succeeds[OF False assms] obtain L1 w1 where "Logger_init L w = (Inr (), L1, w1)"
    by blast
  with False have "(if \<not> initialized L then Logger_init L w else (Inr (), L, w)) = (Inr (), L1, w1)"
    by simp
  then show ?thesis by (rule log_after_init)
qed

subsection \<open>The levels debug and trace\<close>




lemma uploadLogs_storage: "storage (snd (LogUploader_uploadLogs U logs w)) = storage w"
  using uploadLogs_effect[of U logs w] by (cases "LogUploader_uploadLogs U logs w") simp








subsection \<open>Reconfiguring the server URL\<close>

lemma spread_as_options: "mergeConfig (as_options c) = c"
  by (simp add: mergeConfig_def spread_def as_options_def)

lemma updateConfig_serverUrl_only:
  "uploadManager (fst (Logger_updateConfig (no_options\<lparr>opt_serverUrl := Some url\<rparr>) L w)) = uploadManager L
   \<and> config (fst (Logger_updateConfig (no_options\<lparr>opt_serverUrl := Some url\<rparr>) L w)) = (config L)\<lparr>serverUrl := url\<rparr>
   \<and> uploader (fst (Logger_updateConfig (no_options\<lparr>opt_serverUrl := Some url\<rparr>) L w))
       = (if serverUrl (config L) \<noteq> url then new_LogUploader url else uploader L)"
proof -
  have c: "mergeConfig (as_options (spread (config L) (no_options\<lparr>opt_serverUrl := Some url\<rparr>)))
        = (config L)\<lparr>serverUrl := url\<rparr>"
    by (simp add: spread_as_options) (simp add: spread_def no_options_def)
  show ?thesis
    unfolding Logger_updateConfig_def c Let_def by simp
qed

lemma reconfigured_value:
  "reconfigured =
    (\<lparr>config = \<lparr>serverUrl = ''new'', debugMode = True, uploadLogs = True, logExpiration = 3,
                 uploadStrategy = Immediate, batchSize = 50\<rparr>,
      uploader = \<lparr>uploader_serverUrl = ''new''\<rparr>,
      uploadManager = \<lparr>um_uploader = \<lparr>uploader_serverUrl = ''old''\<rparr>, um_strategy = Immediate,
                        um_batchSize = 50, isUploading = False, idleSubscribed = False\<rparr>,
      cleanupManager = \<lparr>cleanupInterval = Some 3\<rparr>, initialized = True\<rparr>,
     \<lparr>storage = \<lparr>db = True, rows = []\<rparr>, console = [CleanupCompleted], sink_calls = [], requests = [],
      fetch = fetch_always ResponseOk, idb_opens = True, now = 0\<rparr>)"
  by (simp add: reconfigured_def started_def new_Logger_def Logger_init_def storage_init_def
        startPeriodicCleanup_def performCleanup_def cleanupExpiredLogs_def console_out_def
        Logger_updateConfig_def mergeConfig_def spread_def as_options_def no_options_def
        DEFAULT_CONFIG_def quiet_world_def new_LogUploader_def new_UploadManager_def Let_def)

lemma reconfigured_info:
  "snd (snd (Logger_info ''x'' [] ''1-a'' (fst reconfigured) (snd reconfigured))) =
     \<lparr>storage = \<lparr>db = True, rows = [\<lparr>log_id = ''1-a'', level = Info, title = ''x'', data = [],
                                       timestamp = 0, uploaded = True\<rparr>]\<rparr>,
      console = [CleanupCompleted,
                 Printed \<lparr>log_id = ''1-a'', level = Info, title = ''x'', data = [],
                           timestamp = 0, uploaded = False\<rparr>],
      sink_calls = [(''old'', [\<lparr>log_id = ''1-a'', level = Info, title = ''x'', data = [],
                                  timestamp = 0, uploaded = False\<rparr>], True)],
      requests = [(''old'', [(''1-a'', Info, ''x'', [], 0)], 0)],
      fetch = fetch_always ResponseOk, idb_opens = True, now = 0\<rparr>"
  by (simp add: reconfigured_value Logger_info_def Logger_log_def handleNewLog_def saveLog_def
        uploadImmediately_def LogUploader_uploadLogs_def markAsUploaded_def store_get_def
        console_out_def fetch_always_def wire_def Let_def)

text \<open>
  Claim C3 fails on the code. \<^verbatim>\<open>updateConfig\<close> with a new server URL alone replaces
  \<^verbatim>\<open>this.uploader\<close> of the logger and leaves the upload manager, which holds the old
  uploader, as it is: for every logger, the manager after the call is the manager
  before it, while the configuration has the new URL. In the scenario \<open>reconfigured\<close>
  the next entry logged is sent by a call on the uploader of \<open>''old''\<close>, in a request
  to \<open>''old''\<close>.
\<close>

theorem reconfigured_endpoint_is_not_used:
  "uploadManager (fst (Logger_updateConfig (no_options\<lparr>opt_serverUrl := Some url\<rparr>) L w)) = uploadManager L
   \<and> serverUrl (config (fst (Logger_updateConfig (no_options\<lparr>opt_serverUrl := Some url\<rparr>) L w))) = url
   \<and> serverUrl (config (fst reconfigured)) = ''new''
   \<and> map fst (sink_calls (snd (snd (Logger_info ''x'' [] ''1-a'' (fst reconfigured) (snd reconfigured))))) = [''old'']
   \<and> map fst (requests (snd (snd (Logger_info ''x'' [] ''1-a'' (fst reconfigured) (snd reconfigured))))) = [''old'']"
proof -
  have "serverUrl (config (fst reconfigured)) = ''new''"
    by (simp add: reconfigured_value)
  with updateConfig_serverUrl_only[of url L w] show ?thesis
    by (simp add: reconfigured_info)
qed

theorem reconfigured_endpoint_is_not_used_witness:
  "uploadManager (fst (Logger_updateConfig (no_options\<lparr>opt_serverUrl := Some ''new''\<rparr>)
      (fst (started (no_options\<lparr>opt_serverUrl := Some ''old'', opt_uploadStrategy := Some Immediate\<rparr>)
              (quiet_world [] (fetch_always ResponseOk))))
      (snd (started (no_options\<lparr>opt_serverUrl := Some ''old'', opt_uploadStrategy := Some Immediate\<rparr>)
              (quiet_world [] (fetch_always ResponseOk))))))
    = uploadManager (fst (started (no_options\<lparr>opt_serverUrl := Some ''old'', opt_uploadStrategy := Some Immediate\<rparr>)
              (quiet_world [] (fetch_always ResponseOk))))"
  using reconfigured_endpoint_is_not_used[of "''new''"
      "fst (started (no_options\<lparr>opt_serverUrl := Some ''old'', opt_uploadStrategy := Some Immediate\<rparr>)
              (quiet_world [] (fetch_always ResponseOk)))"
      "snd (started (no_options\<lparr>opt_serverUrl := Some ''old'', opt_uploadStrategy := Some Immediate\<rparr>)
              (quiet_world [] (fetch_always ResponseOk)))"]
  by blast

subsection \<open>Forced upload with uploads switched off\<close>

lemma nothing_left:
  "filter (\<lambda>log. \<not> uploaded log) (mark_rows (map log_id (filter (\<lambda>log. \<not> uploaded log) rs)) rs) = []"
  by (auto simp: mark_rows_def filter_empty_conv)

text \<open>
  With a positive batch size the flag \<^verbatim>\<open>uploadLogs\<close> plays no part in a forced upload.
  Take a logger whose configuration has \<^verbatim>\<open>uploadLogs\<close> false, a server URL
  and a positive batch size, whose upload manager is the one the constructor builds
  from this configuration, and which is initialized over a store that holds
  un-uploaded records. Then \<^verbatim>\<open>forceUpload\<close> resolves and has called the sink: the
  first call went to the configured URL with the first batch of the un-uploaded
  records. If every request succeeds, all these records are marked uploaded and none
  is left un-uploaded.
\<close>

lemma forceUpload_with_positive_batch_size:
  assumes "\<not> uploadLogs (config L)" and "serverUrl (config L) \<noteq> []" and "0 < batchSize (config L)"
    and "uploadManager L = new_UploadManager (new_LogUploader (serverUrl (config L)))
                              (uploadStrategy (config L)) (batchSize (config L))"
    and "initialized L" and "unique_keys (storage w)"
    and "getUnuploadedLogs (storage w) = Inr unuploadedLogs" and "unuploadedLogs \<noteq> []"
  shows "\<exists>w'. Logger_forceUpload L w = Some (Inr (), L, w')
     \<and> new_calls w w' \<noteq> []
     \<and> fst (hd (new_calls w w')) = serverUrl (config L)
     \<and> fst (snd (hd (new_calls w w'))) = take (nat (batchSize (config L))) unuploadedLogs
     \<and> ((\<forall>k. fetch w k = ResponseOk) \<longrightarrow>
            rows (storage w') = mark_rows (map log_id unuploadedLogs) (rows (storage w))
          \<and> getUnuploadedLogs (storage w') = Inr [])"
proof -
  let ?M = "uploadManager L"
  let ?U = "um_uploader ?M"
  let ?b = "nat (um_batchSize ?M)"
  let ?w' = "send_all ?U (chunks ?b unuploadedLogs) w"
  have url: "uploader_serverUrl ?U = serverUrl (config L)"
    and bs: "um_batchSize ?M = batchSize (config L)" and fl: "\<not> isUploading ?M"
    using assms(4) by (simp_all add: new_UploadManager_def new_LogUploader_def)
  have b: "0 < um_batchSize ?M" "0 < ?b" using assms(3) bs by simp_all
  have db: "db (storage w)"
    and un: "unuploadedLogs = filter (\<lambda>log. \<not> uploaded log) (rows (storage w))"
    using assms(7) by (auto simp: getUnuploadedLogs_def split: if_splits)
  have sweep: "uploadPendingLogs ?M w = Some (?M, ?w')"
    using sweep_as_chunks[OF b(1) fl assms(7)] .
  have run: "Logger_forceUpload L w = Some (Inr (), L, ?w')"
    using assms(5) sweep by (simp add: Logger_forceUpload_def UploadManager_forceUpload_def)
  have ch: "chunks ?b unuploadedLogs = take ?b unuploadedLogs # chunks ?b (drop ?b unuploadedLogs)"
    using chunks_step[OF assms(8) b(2)] .
  obtain calls where calls: "sink_calls ?w' = sink_calls w @ calls"
    and batches: "map (fst \<circ> snd) calls = take (length calls) (chunks ?b unuploadedLogs)"
    and urls: "\<forall>c\<in>set calls. fst c = uploader_serverUrl ?U"
    and ne: "calls \<noteq> []"
    using send_all_calls[of ?U "chunks ?b unuploadedLogs" w] ch by auto
  have nc: "new_calls w ?w' = calls" using calls by (simp add: new_calls_def)
  obtain c cs where c: "calls = c # cs" using ne by (cases calls) auto
  have h1: "fst (hd calls) = serverUrl (config L)" using urls c url by simp
  have h2: "fst (snd (hd calls)) = take (nat (batchSize (config L))) unuploadedLogs"
    using batches c ch bs by simp
  have all: "rows (storage ?w') = mark_rows (map log_id unuploadedLogs) (rows (storage w))
          \<and> getUnuploadedLogs (storage ?w') = Inr []"
    if ok: "\<forall>k. fetch w k = ResponseOk"
  proof -
    have u: "uploader_serverUrl ?U \<noteq> []" using url assms(2) by simp
    have "calls = map (\<lambda>c. (uploader_serverUrl ?U, c, True)) (chunks ?b unuploadedLogs)"
      using send_all_all_ok[OF u ok, of "chunks ?b unuploadedLogs"] calls by simp
    then have ack: "acknowledged calls = map log_id unuploadedLogs"
      by (simp add: acknowledged_all_ok concat_chunks[OF b(2)])
    have st: "storage ?w' = (storage w)\<lparr>rows := mark_rows (map log_id unuploadedLogs) (rows (storage w))\<rparr>"
      using send_all_rows[OF assms(6) db, of ?U "chunks ?b unuploadedLogs"] calls ack by simp
    then show ?thesis
      using db un by (simp add: getUnuploadedLogs_def nothing_left)
  qed
  have "Logger_forceUpload L w = Some (Inr (), L, ?w')
     \<and> new_calls w ?w' \<noteq> []
     \<and> fst (hd (new_calls w ?w')) = serverUrl (config L)
     \<and> fst (snd (hd (new_calls w ?w'))) = take (nat (batchSize (config L))) unuploadedLogs
     \<and> ((\<forall>k. fetch w k = ResponseOk) \<longrightarrow>
            rows (storage ?w') = mark_rows (map log_id unuploadedLogs) (rows (storage w))
          \<and> getUnuploadedLogs (storage ?w') = Inr [])"
    using run ne h1 h2 all by (simp only: nc simp_thms) blast
  then show ?thesis by (rule exI)
qed

lemma forceUpload_with_positive_batch_size_example:
  "\<exists>w'. Logger_forceUpload
            (fst (started (no_options\<lparr>opt_serverUrl := Some ''u'', opt_uploadLogs := Some False\<rparr>)
                    (quiet_world [entry ''a'' 1 False, entry ''b'' 2 True] (fetch_always ResponseOk))))
            (snd (started (no_options\<lparr>opt_serverUrl := Some ''u'', opt_uploadLogs := Some False\<rparr>)
                    (quiet_world [entry ''a'' 1 False, entry ''b'' 2 True] (fetch_always ResponseOk))))
          = Some (Inr (),
                  fst (started (no_options\<lparr>opt_serverUrl := Some ''u'', opt_uploadLogs := Some False\<rparr>)
                    (quiet_world [entry ''a'' 1 False, entry ''b'' 2 True] (fetch_always ResponseOk))), w')
      \<and> rows (storage w') = [entry ''a'' 1 True, entry ''b'' 2 True]
      \<and> getUnuploadedLogs (storage w') = Inr []"
proof -
  let ?cfg = "no_options\<lparr>opt_serverUrl := Some ''u'', opt_uploadLogs := Some False\<rparr>"
  let ?before = "quiet_world [entry ''a'' 1 False, entry ''b'' 2 True] (fetch_always ResponseOk)"
  let ?L = "fst (started ?cfg ?before)"
  let ?w = "snd (started ?cfg ?before)"
  have st: "started ?cfg ?before =
    (\<lparr>config = \<lparr>serverUrl = ''u'', debugMode = True, uploadLogs = False, logExpiration = 3,
                 uploadStrategy = Idle, batchSize = 50\<rparr>,
      uploader = \<lparr>uploader_serverUrl = ''u''\<rparr>,
      uploadManager = \<lparr>um_uploader = \<lparr>uploader_serverUrl = ''u''\<rparr>, um_strategy = Idle,
                        um_batchSize = 50, isUploading = False, idleSubscribed = True\<rparr>,
      cleanupManager = \<lparr>cleanupInterval = Some 3\<rparr>, initialized = True\<rparr>,
     \<lparr>storage = \<lparr>db = True, rows = [entry ''a'' 1 False, entry ''b'' 2 True]\<rparr>,
      console = [CleanupCompleted], sink_calls = [], requests = [],
      fetch = fetch_always ResponseOk, idb_opens = True, now = 0\<rparr>)"
    by (simp add: started_def new_Logger_def Logger_init_def storage_init_def
        startPeriodicCleanup_def performCleanup_def cleanupExpiredLogs_def console_out_def
        mergeConfig_def spread_def no_options_def store_delete_def
        DEFAULT_CONFIG_def quiet_world_def new_LogUploader_def new_UploadManager_def Let_def)
  have h1: "\<not> uploadLogs (config ?L)" by (simp add: st)
  have h2: "serverUrl (config ?L) \<noteq> []" by (simp add: st)
  have h3: "0 < batchSize (config ?L)" by (simp add: st)
  have h4: "uploadManager ?L = new_UploadManager (new_LogUploader (serverUrl (config ?L)))
                              (uploadStrategy (config ?L)) (batchSize (config ?L))"
    by (simp add: st new_UploadManager_def new_LogUploader_def)
  have h5: "initialized ?L" by (simp add: st)
  have h6: "unique_keys (storage ?w)" by (simp add: st unique_keys_def)
  have h7: "getUnuploadedLogs (storage ?w) = Inr [entry ''a'' 1 False]"
    by (simp add: st getUnuploadedLogs_def)
  have h8: "[entry ''a'' 1 False] \<noteq> []" by simp
  have h9: "\<forall>k. fetch ?w k = ResponseOk" by (simp add: st fetch_always_def)
  from forceUpload_with_positive_batch_size[OF h1 h2 h3 h4 h5 h6 h7 h8] h9
  obtain w' where r: "Logger_forceUpload ?L ?w = Some (Inr (), ?L, w')"
    and m: "rows (storage w') = mark_rows (map log_id [entry ''a'' 1 False]) (rows (storage ?w))"
    and g: "getUnuploadedLogs (storage w') = Inr []"
    by blast
  from m have "rows (storage w') = [entry ''a'' 1 True, entry ''b'' 2 True]"
    by (simp add: st mark_rows_def)
  with r g show ?thesis by blast
qed

text \<open>
  Claim C9 fails when the configured batch size is 0. Take a logger whose configuration
  has \<^verbatim>\<open>uploadLogs\<close> false, a server URL and batch size 0, whose upload manager is
  the one the constructor builds from this configuration, and which is initialized over
  a store that holds un-uploaded records. Then \<^verbatim>\<open>forceUpload\<close> never returns. Every
  round of its loop takes the empty batch, which the sink accepts without a request,
  marks the empty list of ids, which leaves the store as it is, and adds 0 to the
  loop index: no record is ever sent or marked uploaded.
\<close>

theorem forceUpload_never_returns_with_batch_size_zero:
  assumes "\<not> uploadLogs (config L)" and "serverUrl (config L) \<noteq> []" and "batchSize (config L) = 0"
    and "uploadManager L = new_UploadManager (new_LogUploader (serverUrl (config L)))
                              (uploadStrategy (config L)) (batchSize (config L))"
    and "initialized L"
    and "getUnuploadedLogs (storage w) = Inr unuploadedLogs" and "unuploadedLogs \<noteq> []"
  shows "Logger_forceUpload L w = None
     \<and> slice unuploadedLogs 0 (0 + batchSize (config L)) = []
     \<and> LogUploader_uploadLogs (um_uploader (uploadManager L)) [] w
         = (True, w\<lparr>sink_calls := sink_calls w @ [(serverUrl (config L), [], True)]\<rparr>)
     \<and> markAsUploaded (map log_id []) (storage w) = (Inr (), storage w)"
proof -
  let ?M = "uploadManager L"
  have url: "uploader_serverUrl (um_uploader ?M) = serverUrl (config L)"
    and bs: "um_batchSize ?M = 0" and fl: "\<not> isUploading ?M"
    using assms(3,4) by (simp_all add: new_UploadManager_def new_LogUploader_def)
  have "uploadBatches (?M\<lparr>isUploading := True\<rparr>) unuploadedLogs 0 w = None"
    using bs url assms(2,7) by (intro zero_batch_size_diverges) simp_all
  then have "uploadPendingLogs ?M w = None"
    using fl assms(6,7) by (simp add: uploadPendingLogs_def)
  then have c1: "Logger_forceUpload L w = None"
    using assms(5) by (simp add: Logger_forceUpload_def UploadManager_forceUpload_def)
  have c2: "slice unuploadedLogs 0 (0 + batchSize (config L)) = []"
    using assms(3) by (simp add: slice_def)
  have c3: "LogUploader_uploadLogs (um_uploader ?M) [] w
         = (True, w\<lparr>sink_calls := sink_calls w @ [(serverUrl (config L), [], True)]\<rparr>)"
    using url assms(2) by (simp add: LogUploader_uploadLogs_def)
  have c4: "markAsUploaded (map log_id []) (storage w) = (Inr (), storage w)"
    by (simp add: markAsUploaded_def)
  from c1 c2 c3 c4 show ?thesis by (intro conjI)
qed

theorem forceUpload_never_returns_with_batch_size_zero_witness:
  "Logger_forceUpload
      (fst (started (no_options\<lparr>opt_serverUrl := Some ''u'', opt_uploadLogs := Some False,
                                opt_batchSize := Some 0\<rparr>)
              (quiet_world [entry ''a'' 1 False, entry ''b'' 2 True] (fetch_always ResponseOk))))
      (snd (started (no_options\<lparr>opt_serverUrl := Some ''u'', opt_uploadLogs := Some False,
                                opt_batchSize := Some 0\<rparr>)
              (quiet_world [entry ''a'' 1 False, entry ''b'' 2 True] (fetch_always ResponseOk))))
    = None"
proof -
  let ?cfg = "no_options\<lparr>opt_serverUrl := Some ''u'', opt_uploadLogs := Some False, opt_batchSize := Some 0\<rparr>"
  let ?before = "quiet_world [entry ''a'' 1 False, entry ''b'' 2 True] (fetch_always ResponseOk)"
  let ?L = "fst (started ?cfg ?before)"
  let ?w = "snd (started ?cfg ?before)"
  have st: "started ?cfg ?before =
    (\<lparr>config = \<lparr>serverUrl = ''u'', debugMode = True, uploadLogs = False, logExpiration = 3,
                 uploadStrategy = Idle, batchSize = 0\<rparr>,
      uploader = \<lparr>uploader_serverUrl = ''u''\<rparr>,
      uploadManager = \<lparr>um_uploader = \<lparr>uploader_serverUrl = ''u''\<rparr>, um_strategy = Idle,
                        um_batchSize = 0, isUploading = False, idleSubscribed = True\<rparr>,
      cleanupManager = \<lparr>cleanupInterval = Some 3\<rparr>, initialized = True\<rparr>,
     \<lparr>storage = \<lparr>db = True, rows = [entry ''a'' 1 False, entry ''b'' 2 True]\<rparr>,
      console = [CleanupCompleted], sink_calls = [], requests = [],
      fetch = fetch_always ResponseOk, idb_opens = True, now = 0\<rparr>)"
    by (simp add: started_def new_Logger_def Logger_init_def storage_init_def
        startPeriodicCleanup_def performCleanup_def cleanupExpiredLogs_def console_out_def
        mergeConfig_def spread_def no_options_def store_delete_def
        DEFAULT_CONFIG_def quiet_world_def new_LogUploader_def new_UploadManager_def Let_def)
  have h1: "\<not> uploadLogs (config ?L)" by (simp add: st)
  have h2: "serverUrl (config ?L) \<noteq> []" by (simp add: st)
  have h3: "batchSize (config ?L) = 0" by (simp add: st)
  have h4: "uploadManager ?L = new_UploadManager (new_LogUploader (serverUrl (config ?L)))
                              (uploadStrategy (config ?L)) (batchSize (config ?L))"
    by (simp add: st new_UploadManager_def new_LogUploader_def)
  have h5: "initialized ?L" by (simp add: st)
  have h7: "getUnuploadedLogs (storage ?w) = Inr [entry ''a'' 1 False]"
    by (simp add: st getUnuploadedLogs_def)
  have h8: "[entry ''a'' 1 False] \<noteq> []" by simp
  from forceUpload_never_returns_with_batch_size_zero[OF h1 h2 h3 h4 h5 h7 h8]
  show ?thesis by blast
qed

section \<open>The guard of the upload manager under interleaving\<close>

lemma count_update:
  assumes "k < length xs"
  shows "length (filter P (xs[k := y])) + (if P (xs ! k) then 1 else 0)
       = length (filter P xs) + (if P y then 1 else 0)"
  using assms
proof (induction xs arbitrary: k)
  case Nil
  then show ?case by simp
next
  case (Cons x xs)
  show ?case
  proof (cases k)
    case 0
    then show ?thesis by simp
  next
    case (Suc j)
    with Cons.prems have "j < length xs" by simp
    from Cons.IH[OF this] Suc show ?thesis by simp
  qed
qed

lemma guarded_return:
  assumes "guarded s" "k < length (tasks s)" "\<not> attempting (tasks s ! k)"
  shows "guarded (return_from k s)"
  using assms count_update[OF assms(2), of attempting Finished]
  by (simp add: guarded_def return_from_def)

lemma guarded_finish:
  assumes "guarded s" "k < length (tasks s)" "attempting (tasks s ! k)"
  shows "guarded (finish_attempt k s)"
proof -
  have "tasks s ! k \<in> set (filter attempting (tasks s))" using assms(2,3) by simp
  then have "length (filter attempting (tasks s)) \<noteq> 0" by (metis length_0_conv empty_iff list.set(1))
  with assms(1) have "length (filter attempting (tasks s)) = 1"
    by (simp add: guarded_def split: if_splits)
  with count_update[OF assms(2), of attempting Finished] assms(3)
  show ?thesis by (simp add: guarded_def finish_attempt_def)
qed

lemma guarded_move:
  assumes "guarded s" "k < length (tasks s)" "attempting (tasks s ! k)" "attempting p"
  shows "guarded (s\<lparr>tasks := (tasks s)[k := p]\<rparr>)"
  using assms count_update[OF assms(2), of attempting p]
  by (simp add: guarded_def)

lemma guarded_store: "guarded (s\<lparr>store := S\<rparr>) = guarded s"
  by (simp add: guarded_def)

lemma guarded_loop_head:
  assumes "guarded s" "k < length (tasks s)" "attempting (tasks s ! k)"
  shows "guarded (loop_head logs i k s)"
  using guarded_finish[OF assms] guarded_move[OF assms, of "AwaitBatchUpload logs i (slice logs i (i + um_batchSize (mgr s)))"]
  by (simp add: loop_head_def)

lemma guarded_start:
  assumes "guarded s" "k < length (tasks s)" "\<not> attempting (tasks s ! k)" "\<not> isUploading (mgr s)" "attempting p"
  shows "guarded (s\<lparr>mgr := (mgr s)\<lparr>isUploading := True\<rparr>, tasks := (tasks s)[k := p]\<rparr>)"
  using assms count_update[OF assms(2), of attempting p]
  by (simp add: guarded_def)

lemma guarded_resume:
  assumes g: "guarded s" and k: "k < length (tasks s)"
  shows "guarded (resume (tasks s ! k) v k s)"
proof (cases "tasks s ! k")
  case (AwaitSaveLog log)
  then have na: "\<not> attempting (tasks s ! k)" by simp
  show ?thesis
  proof (cases v)
    case Rejected
    with AwaitSaveLog guarded_return[OF g k na] show ?thesis by simp
  next
    case (Fulfilled b)
    obtain r S where sv: "saveLog log (store s) = (r, S)" by (cases "saveLog log (store s)")
    show ?thesis
    proof (cases r)
      case (Inl e)
      with AwaitSaveLog Fulfilled sv guarded_return[OF g k na] show ?thesis by simp
    next
      case (Inr u)
      let ?s1 = "s\<lparr>store := S\<rparr>"
      have g1: "guarded ?s1" using g by (simp add: guarded_store)
      have k1: "k < length (tasks ?s1)" using k by simp
      have na1: "\<not> attempting (tasks ?s1 ! k)" using na by simp
      show ?thesis
      proof (cases "um_strategy (mgr s) = Immediate \<and> \<not> isUploading (mgr s)")
        case True
        then have "\<not> isUploading (mgr ?s1)" by simp
        from guarded_start[OF g1 k1 na1 this, of "AwaitImmediateUpload [log]"]
        show ?thesis using AwaitSaveLog Fulfilled sv Inr True by (simp add: Let_def)
      next
        case False
        with AwaitSaveLog Fulfilled sv Inr guarded_return[OF g1 k1 na1] show ?thesis
          by (auto simp: Let_def)
      qed
    qed
  qed
next
  case (AwaitImmediateUpload logs)
  then have a: "attempting (tasks s ! k)" by simp
  show ?thesis
  proof (cases v)
    case Rejected
    with AwaitImmediateUpload guarded_finish[OF g k a] show ?thesis by simp
  next
    case (Fulfilled b)
    with AwaitImmediateUpload guarded_finish[OF g k a] guarded_move[OF g k a, of "AwaitImmediateMark logs"]
    show ?thesis by simp
  qed
next
  case (AwaitImmediateMark logs)
  then have a: "attempting (tasks s ! k)" by simp
  show ?thesis
  proof (cases v)
    case Rejected
    with AwaitImmediateMark guarded_finish[OF g k a] show ?thesis by simp
  next
    case (Fulfilled b)
    obtain r S where mk: "markAsUploaded (map log_id logs) (store s) = (r, S)"
      by (cases "markAsUploaded (map log_id logs) (store s)")
    have "guarded (finish_attempt k (s\<lparr>store := S\<rparr>))"
      using guarded_finish[of "s\<lparr>store := S\<rparr>" k] g k a by (simp add: guarded_store)
    with AwaitImmediateMark Fulfilled mk guarded_finish[OF g k a] show ?thesis
      by (cases r) simp_all
  qed
next
  case AwaitGetUnuploaded
  then have a: "attempting (tasks s ! k)" by simp
  show ?thesis
  proof (cases v)
    case Rejected
    with AwaitGetUnuploaded guarded_finish[OF g k a] show ?thesis by simp
  next
    case (Fulfilled b)
    with AwaitGetUnuploaded guarded_finish[OF g k a] guarded_loop_head[OF g k a]
    show ?thesis by (simp split: sum.splits)
  qed
next
  case (AwaitBatchUpload logs i batch)
  then have a: "attempting (tasks s ! k)" by simp
  show ?thesis
  proof (cases v)
    case Rejected
    with AwaitBatchUpload guarded_finish[OF g k a] show ?thesis by simp
  next
    case (Fulfilled b)
    with AwaitBatchUpload guarded_finish[OF g k a] guarded_move[OF g k a, of "AwaitBatchMark logs i batch"]
    show ?thesis by simp
  qed
next
  case (AwaitBatchMark logs i batch)
  then have a: "attempting (tasks s ! k)" by simp
  show ?thesis
  proof (cases v)
    case Rejected
    with AwaitBatchMark guarded_finish[OF g k a] show ?thesis by simp
  next
    case (Fulfilled b)
    obtain r S where mk: "markAsUploaded (map log_id batch) (store s) = (r, S)"
      by (cases "markAsUploaded (map log_id batch) (store s)")
    have "guarded (loop_head logs (i + um_batchSize (mgr s)) k (s\<lparr>store := S\<rparr>))"
      using guarded_loop_head[of "s\<lparr>store := S\<rparr>" k] g k a by (simp add: guarded_store)
    with AwaitBatchMark Fulfilled mk guarded_finish[OF g k a] show ?thesis
      by (cases r) simp_all
  qed
next
  case Finished
  with g show ?thesis by simp
qed

lemma guarded_step: "guarded s \<Longrightarrow> guarded (step e s)"
proof (cases e)
  case (NewLog log)
  assume "guarded s"
  with NewLog show ?thesis by (simp add: guarded_def)
next
  case IdleFire
  assume "guarded s"
  with IdleFire show ?thesis by (auto simp: guarded_def enter_sweep_def split: if_splits)
next
  case ForceUpload
  assume "guarded s"
  with ForceUpload show ?thesis by (auto simp: guarded_def enter_sweep_def split: if_splits)
next
  case (Settle k v)
  assume "guarded s"
  with Settle guarded_resume[of s k v] show ?thesis by simp
qed

lemma guarded_run: "guarded s \<Longrightarrow> guarded (run es s)"
  unfolding run_def by (induction es arbitrary: s) (simp_all add: guarded_step)

lemma guarded_history: "guarded (history U strategy b S es)"
  unfolding history_def
  by (rule guarded_run) (simp add: guarded_def at_rest_def new_UploadManager_def)

lemma sending_attempting: "sending p \<Longrightarrow> attempting p"
  by (cases p) simp_all

lemma sending_le: "length (filter sending ps) \<le> length (filter attempting ps)"
  by (induction ps) (auto dest: sending_attempting)

lemma guarded_one_send: "guarded s \<Longrightarrow> length (filter sending (tasks s)) \<le> 1"
  using sending_le[of "tasks s"] by (simp add: guarded_def split: if_splits)

lemma finish_attempt_effect:
  "k < length (tasks s) \<Longrightarrow>
     \<not> isUploading (mgr (finish_attempt k s)) \<and> tasks (finish_attempt k s) ! k = Finished"
  by (simp add: finish_attempt_def)

lemma loop_head_effect:
  assumes "k < length (tasks s)"
  shows "(\<not> isUploading (mgr (loop_head logs i k s)) \<and> tasks (loop_head logs i k s) ! k = Finished)
       \<or> (attempting (tasks (loop_head logs i k s) ! k) \<and> mgr (loop_head logs i k s) = mgr s)"
  using assms by (simp add: loop_head_def finish_attempt_def)

text \<open>An attempt that is resumed ends with the flag cleared, or goes on with the flag as it is.\<close>

lemma resume_attempting:
  assumes k: "k < length (tasks s)" and a: "attempting p"
  shows "(\<not> isUploading (mgr (resume p v k s)) \<and> tasks (resume p v k s) ! k = Finished)
       \<or> (attempting (tasks (resume p v k s) ! k) \<and> mgr (resume p v k s) = mgr s)"
proof (cases p)
  case (AwaitSaveLog log)
  with a show ?thesis by simp
next
  case (AwaitImmediateUpload logs)
  with k show ?thesis by (cases v) (simp_all add: finish_attempt_def)
next
  case (AwaitImmediateMark logs)
  with k show ?thesis by (cases v) (simp_all add: finish_attempt_def split: prod.splits sum.splits)
next
  case AwaitGetUnuploaded
  show ?thesis
  proof (cases v)
    case Rejected
    with AwaitGetUnuploaded k show ?thesis by (simp add: finish_attempt_def)
  next
    case (Fulfilled b)
    show ?thesis
    proof (cases "getUnuploadedLogs (store s)")
      case (Inl e)
      with AwaitGetUnuploaded Fulfilled k show ?thesis by (simp add: finish_attempt_def)
    next
      case (Inr logs)
      with AwaitGetUnuploaded Fulfilled finish_attempt_effect[OF k] loop_head_effect[OF k, of logs 0]
      show ?thesis by simp
    qed
  qed
next
  case (AwaitBatchUpload logs i batch)
  with k show ?thesis by (cases v) (simp_all add: finish_attempt_def)
next
  case (AwaitBatchMark logs i batch)
  show ?thesis
  proof (cases v)
    case Rejected
    with AwaitBatchMark k show ?thesis by (simp add: finish_attempt_def)
  next
    case (Fulfilled b)
    obtain r S where mk: "markAsUploaded (map log_id batch) (store s) = (r, S)"
      by (cases "markAsUploaded (map log_id batch) (store s)")
    have k': "k < length (tasks (s\<lparr>store := S\<rparr>))" using k by simp
    from loop_head_effect[OF k', of logs "i + um_batchSize (mgr s)"]
      AwaitBatchMark Fulfilled mk finish_attempt_effect[OF k]
    show ?thesis by (cases r) simp_all
  qed
next
  case Finished
  with a show ?thesis by simp
qed

lemma failure_ends_attempt:
  assumes "k < length (tasks s)" "attempting (tasks s ! k)"
    and "v = Rejected \<or> (v = Fulfilled False \<and> sending (tasks s ! k))"
  shows "\<not> isUploading (mgr (step (Settle k v) s)) \<and> tasks (step (Settle k v) s) ! k = Finished"
proof (cases "tasks s ! k")
  case (AwaitSaveLog log)
  with assms(2) show ?thesis by simp
next
  case (AwaitImmediateUpload logs)
  with assms(1,3) show ?thesis by (auto simp: finish_attempt_def)
next
  case (AwaitImmediateMark logs)
  with assms(1,3) show ?thesis by (auto simp: finish_attempt_def)
next
  case AwaitGetUnuploaded
  with assms(1,3) show ?thesis by (auto simp: finish_attempt_def)
next
  case (AwaitBatchUpload logs i batch)
  with assms(1,3) show ?thesis by (auto simp: finish_attempt_def)
next
  case (AwaitBatchMark logs i batch)
  with assms(1,3) show ?thesis by (auto simp: finish_attempt_def)
next
  case Finished
  with assms(2) show ?thesis by simp
qed

lemma trigger_dropped:
  assumes "isUploading (mgr s)"
  shows "step IdleFire s = s" "step ForceUpload s = s"
  using assms by (simp_all add: enter_sweep_def)

lemma new_log_not_uploaded:
  assumes "isUploading (mgr s)" "k < length (tasks s)" "tasks s ! k = AwaitSaveLog log"
  shows "mgr (step (Settle k v) s) = mgr s \<and> tasks (step (Settle k v) s) = (tasks s)[k := Finished]"
proof (cases v)
  case Rejected
  with assms show ?thesis by (simp add: return_from_def)
next
  case (Fulfilled b)
  obtain r S where sv: "saveLog log (store s) = (r, S)" by (cases "saveLog log (store s)")
  with assms Fulfilled show ?thesis by (cases r) (simp_all add: return_from_def Let_def)
qed

lemma finish_attempt_shape:
  "k < length (tasks s) \<Longrightarrow>
    tasks (finish_attempt k s) ! k = Finished \<and> length (tasks (finish_attempt k s)) = length (tasks s)
    \<and> um_batchSize (mgr (finish_attempt k s)) = um_batchSize (mgr s)"
  by (simp add: finish_attempt_def)

lemma loop_head_decreases:
  assumes "k < length (tasks s)" "0 \<le> i" "2 * (length logs - nat i) < bound \<or> \<not> i < int (length logs)" "0 < bound"
  shows "remaining (store (loop_head logs i k s)) (tasks (loop_head logs i k s) ! k) < bound
       \<and> in_loop (tasks (loop_head logs i k s) ! k)
       \<and> length (tasks (loop_head logs i k s)) = length (tasks s)
       \<and> um_batchSize (mgr (loop_head logs i k s)) = um_batchSize (mgr s)"
  using assms by (auto simp: loop_head_def finish_attempt_def)

lemma resume_decreases:
  assumes b: "0 < um_batchSize (mgr s)" and k: "k < length (tasks s)"
    and a: "attempting (tasks s ! k)" and w: "in_loop (tasks s ! k)"
  shows "remaining (store (step (Settle k v) s)) (tasks (step (Settle k v) s) ! k)
           < remaining (store s) (tasks s ! k)
       \<and> in_loop (tasks (step (Settle k v) s) ! k)
       \<and> length (tasks (step (Settle k v) s)) = length (tasks s)
       \<and> um_batchSize (mgr (step (Settle k v) s)) = um_batchSize (mgr s)"
proof (cases "tasks s ! k")
  case (AwaitSaveLog log)
  with a show ?thesis by simp
next
  case (AwaitImmediateUpload logs)
  with k show ?thesis by (cases v) (simp_all add: finish_attempt_def)
next
  case (AwaitImmediateMark logs)
  with k show ?thesis by (cases v) (simp_all add: finish_attempt_def split: prod.splits sum.splits)
next
  case AwaitGetUnuploaded
  show ?thesis
  proof (cases v)
    case Rejected
    with AwaitGetUnuploaded k show ?thesis by (simp add: finish_attempt_def)
  next
    case (Fulfilled x)
    show ?thesis
    proof (cases "getUnuploadedLogs (store s)")
      case (Inl e)
      with AwaitGetUnuploaded Fulfilled k show ?thesis by (simp add: finish_attempt_def)
    next
      case (Inr logs)
      then have logs: "logs = filter (\<lambda>log. \<not> uploaded log) (rows (store s))"
        by (auto simp: getUnuploadedLogs_def split: if_splits)
      show ?thesis
      proof (cases "logs = []")
        case True
        with AwaitGetUnuploaded Fulfilled Inr k show ?thesis by (simp add: finish_attempt_def)
      next
        case False
        have i0: "(0::int) \<le> 0" by simp
        have bd: "2 * (length logs - nat 0) < 2 * length logs + 1 \<or> \<not> 0 < int (length logs)" by simp
        have pos: "0 < 2 * length logs + 1" by simp
        from loop_head_decreases[OF k i0 bd pos] AwaitGetUnuploaded Fulfilled Inr False logs k
        show ?thesis by simp
      qed
    qed
  qed
next
  case (AwaitBatchUpload logs i batch)
  with k w show ?thesis by (cases v) (auto simp: finish_attempt_def)
next
  case (AwaitBatchMark logs i batch)
  show ?thesis
  proof (cases v)
    case Rejected
    with AwaitBatchMark k w show ?thesis by (auto simp: finish_attempt_def)
  next
    case (Fulfilled x)
    obtain r S where mk: "markAsUploaded (map log_id batch) (store s) = (r, S)"
      by (cases "markAsUploaded (map log_id batch) (store s)")
    let ?s1 = "s\<lparr>store := S\<rparr>"
    let ?i = "i + um_batchSize (mgr s)"
    have k1: "k < length (tasks ?s1)" using k by simp
    have i0: "0 \<le> ?i" using w b AwaitBatchMark by simp
    have pos: "0 < 2 * (length logs - nat i) - 1" using w AwaitBatchMark by auto
    have dec: "2 * (length logs - nat ?i) < 2 * (length logs - nat i) - 1 \<or> \<not> ?i < int (length logs)"
      using w b AwaitBatchMark by auto
    show ?thesis
    proof (cases r)
      case (Inl e)
      with AwaitBatchMark Fulfilled mk k w show ?thesis by (auto simp: finish_attempt_def)
    next
      case (Inr u)
      from loop_head_decreases[OF k1 i0 dec pos] AwaitBatchMark Fulfilled mk Inr k
      show ?thesis by simp
    qed
  qed
next
  case Finished
  with a show ?thesis by simp
qed

lemma remaining_pos: "attempting p \<Longrightarrow> in_loop p \<Longrightarrow> 0 < remaining S p"
  by (cases p) auto

lemma settle_finished:
  "k < length (tasks s) \<Longrightarrow> tasks s ! k = Finished \<Longrightarrow> settle_all k vs s = s"
  unfolding settle_all_def by (induction vs) simp_all

lemma settle_all_Cons: "settle_all k (v # vs) s = settle_all k vs (step (Settle k v) s)"
  by (simp add: settle_all_def)

lemma attempt_ends:
  assumes "0 < um_batchSize (mgr s)" "k < length (tasks s)" "attempting (tasks s ! k)"
    "in_loop (tasks s ! k)" "remaining (store s) (tasks s ! k) \<le> length vs"
  shows "tasks (settle_all k vs s) ! k = Finished \<and> \<not> isUploading (mgr (settle_all k vs s))"
  using assms
proof (induction vs arbitrary: s)
  case Nil
  with remaining_pos[of "tasks s ! k" "store s"] show ?case by simp
next
  case (Cons v vs)
  let ?s' = "step (Settle k v) s"
  from resume_decreases[OF Cons.prems(1-4), of v]
  have dec: "remaining (store ?s') (tasks ?s' ! k) < remaining (store s) (tasks s ! k)"
    and w': "in_loop (tasks ?s' ! k)" and k': "k < length (tasks ?s')"
    and b': "0 < um_batchSize (mgr ?s')"
    using Cons.prems(1,2) by simp_all
  from dec Cons.prems(5) have le: "remaining (store ?s') (tasks ?s' ! k) \<le> length vs" by simp
  from resume_attempting[OF Cons.prems(2,3), of v] Cons.prems(2)
  consider (ended) "\<not> isUploading (mgr ?s')" "tasks ?s' ! k = Finished"
    | (goes_on) "attempting (tasks ?s' ! k)"
    by auto
  then show ?case
  proof cases
    case ended
    with settle_finished[OF k', of vs] show ?thesis by (simp add: settle_all_Cons)
  next
    case goes_on
    from Cons.IH[OF b' k' goes_on w' le] show ?thesis by (simp add: settle_all_Cons)
  qed
qed

lemma list_all_update: "list_all P xs \<Longrightarrow> P y \<Longrightarrow> list_all P (xs[k := y])"
  by (induction xs arbitrary: k) (auto split: nat.splits)

lemma loop_head_shape:
  "\<exists>p. tasks (loop_head logs i k s) = (tasks s)[k := p]
     \<and> um_batchSize (mgr (loop_head logs i k s)) = um_batchSize (mgr s)"
  by (auto simp: loop_head_def finish_attempt_def)

lemma resume_shape:
  "\<exists>p. tasks (resume q v k s) = (tasks s)[k := p]
     \<and> um_batchSize (mgr (resume q v k s)) = um_batchSize (mgr s)"
proof (cases q)
  case (AwaitSaveLog log)
  then show ?thesis
    by (cases v) (auto simp: return_from_def Let_def split: prod.splits sum.splits)
next
  case (AwaitImmediateUpload logs)
  then show ?thesis by (cases v) (auto simp: finish_attempt_def)
next
  case (AwaitImmediateMark logs)
  then show ?thesis by (cases v) (auto simp: finish_attempt_def split: prod.splits sum.splits)
next
  case AwaitGetUnuploaded
  show ?thesis
  proof (cases v)
    case Rejected
    with AwaitGetUnuploaded show ?thesis by (auto simp: finish_attempt_def)
  next
    case (Fulfilled x)
    with AwaitGetUnuploaded loop_head_shape[of _ 0 k s] show ?thesis
      by (auto simp: finish_attempt_def split: sum.splits)
  qed
next
  case (AwaitBatchUpload logs i batch)
  then show ?thesis by (cases v) (auto simp: finish_attempt_def)
next
  case (AwaitBatchMark logs i batch)
  show ?thesis
  proof (cases v)
    case Rejected
    with AwaitBatchMark show ?thesis by (auto simp: finish_attempt_def)
  next
    case (Fulfilled x)
    obtain r S where mk: "markAsUploaded (map log_id batch) (store s) = (r, S)"
      by (cases "markAsUploaded (map log_id batch) (store s)")
    from loop_head_shape[of logs "i + um_batchSize (mgr s)" k "s\<lparr>store := S\<rparr>"]
      AwaitBatchMark Fulfilled mk
    show ?thesis by (cases r) (auto simp: finish_attempt_def)
  qed
next
  case Finished
  have "tasks s = (tasks s)[k := tasks s ! k]" by simp
  then have "\<exists>p. tasks s = (tasks s)[k := p]" by (rule exI)
  with Finished show ?thesis by simp
qed

lemma well_formed_step:
  assumes b: "0 < um_batchSize (mgr s)" and w: "well_formed s"
  shows "well_formed (step e s) \<and> um_batchSize (mgr (step e s)) = um_batchSize (mgr s)"
proof (cases e)
  case (NewLog log)
  with w show ?thesis by (simp add: well_formed_def)
next
  case IdleFire
  with w show ?thesis by (simp add: well_formed_def enter_sweep_def)
next
  case ForceUpload
  with w show ?thesis by (simp add: well_formed_def enter_sweep_def)
next
  case (Settle k v)
  show ?thesis
  proof (cases "k < length (tasks s)")
    case False
    with Settle w show ?thesis by simp
  next
    case k: True
    from w k have wk: "in_loop (tasks s ! k)" by (simp add: well_formed_def list_all_length)
    from resume_shape[of "tasks s ! k" v k s] k obtain p
      where p: "tasks (step (Settle k v) s) = (tasks s)[k := p]"
        and bs: "um_batchSize (mgr (step (Settle k v) s)) = um_batchSize (mgr s)"
      by auto
    have "in_loop p"
    proof (cases "attempting (tasks s ! k)")
      case True
      from resume_decreases[OF b k True wk, of v] p k show ?thesis by simp
    next
      case False
      then have "tasks s ! k = Finished \<or> (\<exists>log. tasks s ! k = AwaitSaveLog log)"
        by (cases "tasks s ! k") simp_all
      then have "in_loop (tasks (step (Settle k v) s) ! k)"
      proof
        assume "tasks s ! k = Finished"
        with k show ?thesis by simp
      next
        assume "\<exists>log. tasks s ! k = AwaitSaveLog log"
        then obtain log where "tasks s ! k = AwaitSaveLog log" by blast
        with k show ?thesis
          by (cases v) (auto simp: return_from_def Let_def split: prod.splits sum.splits)
      qed
      with p k show ?thesis by simp
    qed
    with w p have "well_formed (step (Settle k v) s)" by (simp add: well_formed_def list_all_update)
    with bs Settle show ?thesis by simp
  qed
qed

lemma well_formed_run:
  "0 < um_batchSize (mgr s) \<Longrightarrow> well_formed s \<Longrightarrow>
     well_formed (run es s) \<and> um_batchSize (mgr (run es s)) = um_batchSize (mgr s)"
  unfolding run_def
proof (induction es arbitrary: s)
  case Nil
  then show ?case by simp
next
  case (Cons e es)
  from well_formed_step[OF Cons.prems, of e]
  have "well_formed (step e s)" and "um_batchSize (mgr (step e s)) = um_batchSize (mgr s)" by simp_all
  with Cons.IH[of "step e s"] Cons.prems(1) show ?case by simp
qed

lemma well_formed_history:
  "0 < b \<Longrightarrow> well_formed (history U strategy b S es) \<and> um_batchSize (mgr (history U strategy b S es)) = b"
  unfolding history_def
  using well_formed_run[of "at_rest (new_UploadManager U strategy b) S" es]
  by (simp add: well_formed_def at_rest_def new_UploadManager_def)

lemma attempt_always_ends:
  assumes "0 < b" "k < length (tasks (history U strategy b S es))"
    "attempting (tasks (history U strategy b S es) ! k)"
    "remaining (store (history U strategy b S es)) (tasks (history U strategy b S es) ! k) \<le> length vs"
  shows "tasks (settle_all k vs (history U strategy b S es)) ! k = Finished
       \<and> \<not> isUploading (mgr (settle_all k vs (history U strategy b S es)))"
proof -
  let ?s = "history U strategy b S es"
  from well_formed_history[OF assms(1), of U strategy S es]
  have w: "well_formed ?s" and bs: "0 < um_batchSize (mgr ?s)" using assms(1) by simp_all
  from w assms(2) have "in_loop (tasks ?s ! k)" by (simp add: well_formed_def list_all_length)
  from attempt_ends[OF bs assms(2,3) this assms(4)] show ?thesis .
qed

text \<open>
  The guard, for every batch size. Take a manager as its constructor leaves it and any sequence of events:
  new log entries, fires of the idle detector, forced uploads, and promises settling
  in any order with any outcome. In the state reached,
  \<^item> the number of upload attempts under way is 1 if \<^verbatim>\<open>isUploading\<close> is set and 0
    otherwise, and at most one call of the sink is under way;
  \<^item> while the flag is set, a fire of the idle detector and a forced upload change
    nothing, and a new entry whose save settles is not uploaded: its call returns and
    the manager is as before;
  \<^item> when a promise awaited by an attempt settles, the attempt either ends with the
    flag cleared or goes on with the flag set, there is no third case; a rejection,
    or a sink that reports failure, ends it at once with the flag cleared;
  \<^item> with a positive batch size every attempt ends, with the flag cleared, once
    \<open>remaining\<close>-many of its promises have settled.
\<close>

lemma guard_under_interleaving:
  "length (filter attempting (tasks (history U strategy b S es)))
      = (if isUploading (mgr (history U strategy b S es)) then 1 else 0)
   \<and> length (filter sending (tasks (history U strategy b S es))) \<le> 1
   \<and> (isUploading (mgr (history U strategy b S es)) \<longrightarrow>
         step IdleFire (history U strategy b S es) = history U strategy b S es
       \<and> step ForceUpload (history U strategy b S es) = history U strategy b S es
       \<and> (\<forall>k log v. k < length (tasks (history U strategy b S es))
             \<and> tasks (history U strategy b S es) ! k = AwaitSaveLog log \<longrightarrow>
               mgr (step (Settle k v) (history U strategy b S es)) = mgr (history U strategy b S es)
             \<and> tasks (step (Settle k v) (history U strategy b S es))
                 = (tasks (history U strategy b S es))[k := Finished]))
   \<and> (\<forall>k v. k < length (tasks (history U strategy b S es))
          \<and> attempting (tasks (history U strategy b S es) ! k) \<longrightarrow>
          (\<not> isUploading (mgr (step (Settle k v) (history U strategy b S es)))
             \<and> tasks (step (Settle k v) (history U strategy b S es)) ! k = Finished)
          \<or> (attempting (tasks (step (Settle k v) (history U strategy b S es)) ! k)
             \<and> isUploading (mgr (step (Settle k v) (history U strategy b S es)))))
   \<and> (\<forall>k v. k < length (tasks (history U strategy b S es))
          \<and> attempting (tasks (history U strategy b S es) ! k)
          \<and> (v = Rejected \<or> (v = Fulfilled False \<and> sending (tasks (history U strategy b S es) ! k))) \<longrightarrow>
          \<not> isUploading (mgr (step (Settle k v) (history U strategy b S es)))
          \<and> tasks (step (Settle k v) (history U strategy b S es)) ! k = Finished)
   \<and> (0 < b \<longrightarrow>
        (\<forall>k vs. k < length (tasks (history U strategy b S es))
          \<and> attempting (tasks (history U strategy b S es) ! k)
          \<and> remaining (store (history U strategy b S es)) (tasks (history U strategy b S es) ! k) \<le> length vs \<longrightarrow>
          tasks (settle_all k vs (history U strategy b S es)) ! k = Finished
          \<and> \<not> isUploading (mgr (settle_all k vs (history U strategy b S es)))))"
proof -
  let ?s = "history U strategy b S es"
  have g: "guarded ?s" by (rule guarded_history)
  have c1: "length (filter attempting (tasks ?s)) = (if isUploading (mgr ?s) then 1 else 0)"
    using g by (simp add: guarded_def)
  have c2: "length (filter sending (tasks ?s)) \<le> 1"
    using g by (rule guarded_one_send)
  have c3: "isUploading (mgr ?s) \<longrightarrow>
         step IdleFire ?s = ?s \<and> step ForceUpload ?s = ?s
       \<and> (\<forall>k log v. k < length (tasks ?s) \<and> tasks ?s ! k = AwaitSaveLog log \<longrightarrow>
               mgr (step (Settle k v) ?s) = mgr ?s
             \<and> tasks (step (Settle k v) ?s) = (tasks ?s)[k := Finished])"
    using trigger_dropped[of ?s] new_log_not_uploaded[of ?s] by blast
  have c4: "\<forall>k v. k < length (tasks ?s) \<and> attempting (tasks ?s ! k) \<longrightarrow>
          (\<not> isUploading (mgr (step (Settle k v) ?s)) \<and> tasks (step (Settle k v) ?s) ! k = Finished)
          \<or> (attempting (tasks (step (Settle k v) ?s) ! k) \<and> isUploading (mgr (step (Settle k v) ?s)))"
  proof (intro allI impI)
    fix k v assume h: "k < length (tasks ?s) \<and> attempting (tasks ?s ! k)"
    then have "tasks ?s ! k \<in> set (filter attempting (tasks ?s))" by simp
    then have "filter attempting (tasks ?s) \<noteq> []" by (metis empty_iff list.set(1))
    with c1 have up: "isUploading (mgr ?s)" by (auto split: if_splits)
    from h resume_attempting[of k ?s "tasks ?s ! k" v] up
    show "(\<not> isUploading (mgr (step (Settle k v) ?s)) \<and> tasks (step (Settle k v) ?s) ! k = Finished)
          \<or> (attempting (tasks (step (Settle k v) ?s) ! k) \<and> isUploading (mgr (step (Settle k v) ?s)))"
      by auto
  qed
  have c5: "\<forall>k v. k < length (tasks ?s) \<and> attempting (tasks ?s ! k)
          \<and> (v = Rejected \<or> (v = Fulfilled False \<and> sending (tasks ?s ! k))) \<longrightarrow>
          \<not> isUploading (mgr (step (Settle k v) ?s)) \<and> tasks (step (Settle k v) ?s) ! k = Finished"
    using failure_ends_attempt[of _ ?s] by blast
  have c6: "0 < b \<longrightarrow>
        (\<forall>k vs. k < length (tasks ?s) \<and> attempting (tasks ?s ! k)
          \<and> remaining (store ?s) (tasks ?s ! k) \<le> length vs \<longrightarrow>
          tasks (settle_all k vs ?s) ! k = Finished \<and> \<not> isUploading (mgr (settle_all k vs ?s)))"
    using attempt_always_ends[of b _ U strategy S es] by blast
  from c1 c2 c3 c4 c5 c6 show ?thesis by (intro conjI)
qed

lemma guard_under_interleaving_example:
  "isUploading (mgr (history (new_LogUploader ''u'') Immediate 1 \<lparr>db = True, rows = [entry ''a'' 1 False]\<rparr>
       [ForceUpload, NewLog (entry ''b'' 2 False), IdleFire, Settle 1 (Fulfilled True),
        Settle 0 (Fulfilled True)]))
   \<and> length (filter attempting (tasks (history (new_LogUploader ''u'') Immediate 1
       \<lparr>db = True, rows = [entry ''a'' 1 False]\<rparr>
       [ForceUpload, NewLog (entry ''b'' 2 False), IdleFire, Settle 1 (Fulfilled True),
        Settle 0 (Fulfilled True)]))) = 1
   \<and> step ForceUpload (history (new_LogUploader ''u'') Immediate 1 \<lparr>db = True, rows = [entry ''a'' 1 False]\<rparr>
       [ForceUpload, NewLog (entry ''b'' 2 False), IdleFire, Settle 1 (Fulfilled True),
        Settle 0 (Fulfilled True)])
     = history (new_LogUploader ''u'') Immediate 1 \<lparr>db = True, rows = [entry ''a'' 1 False]\<rparr>
       [ForceUpload, NewLog (entry ''b'' 2 False), IdleFire, Settle 1 (Fulfilled True),
        Settle 0 (Fulfilled True)]
   \<and> \<not> isUploading (mgr (step (Settle 0 (Fulfilled False))
        (history (new_LogUploader ''u'') Immediate 1 \<lparr>db = True, rows = [entry ''a'' 1 False]\<rparr>
          [ForceUpload, NewLog (entry ''b'' 2 False), IdleFire, Settle 1 (Fulfilled True),
           Settle 0 (Fulfilled True)])))
   \<and> \<not> isUploading (mgr (settle_all 0 [Fulfilled True, Fulfilled True, Fulfilled True, Fulfilled True]
        (history (new_LogUploader ''u'') Immediate 1 \<lparr>db = True, rows = [entry ''a'' 1 False]\<rparr>
          [ForceUpload, NewLog (entry ''b'' 2 False), IdleFire, Settle 1 (Fulfilled True),
           Settle 0 (Fulfilled True)])))"
proof -
  let ?es = "[ForceUpload, NewLog (entry ''b'' 2 False), IdleFire, Settle 1 (Fulfilled True),
        Settle 0 (Fulfilled True)]"
  let ?s = "history (new_LogUploader ''u'') Immediate 1 \<lparr>db = True, rows = [entry ''a'' 1 False]\<rparr> ?es"
  have val: "?s = \<lparr>mgr = (new_UploadManager (new_LogUploader ''u'') Immediate 1)\<lparr>isUploading := True\<rparr>,
                   store = \<lparr>db = True, rows = [entry ''a'' 1 False, entry ''b'' 2 False]\<rparr>,
                   tasks = [AwaitBatchUpload [entry ''a'' 1 False, entry ''b'' 2 False] 0 [entry ''a'' 1 False],
                            Finished]\<rparr>"
    by (simp add: history_def run_def at_rest_def new_UploadManager_def enter_sweep_def saveLog_def
          return_from_def getUnuploadedLogs_def loop_head_def slice_def Let_def)
  have up: "isUploading (mgr ?s)" by (simp only: val) simp
  have k: "0 < length (tasks ?s)" by (simp only: val) simp
  have a: "attempting (tasks ?s ! 0)" by (simp only: val) simp
  have sd: "sending (tasks ?s ! 0)" by (simp only: val) simp
  have r: "remaining (store ?s) (tasks ?s ! 0)
             \<le> length [Fulfilled True, Fulfilled True, Fulfilled True, Fulfilled True]"
    by (simp only: val) simp
  note claim = guard_under_interleaving[of "new_LogUploader ''u''" Immediate 1
         "\<lparr>db = True, rows = [entry ''a'' 1 False]\<rparr>" ?es]
  from claim up have c1: "length (filter attempting (tasks ?s)) = 1" by simp
  from claim up have c3: "step ForceUpload ?s = ?s" by blast
  from claim k a sd have c5: "\<not> isUploading (mgr (step (Settle 0 (Fulfilled False)) ?s))" by blast
  have pos: "(0::int) < 1" by simp
  from claim pos k a r
  have c6: "\<not> isUploading (mgr (settle_all 0 [Fulfilled True, Fulfilled True, Fulfilled True, Fulfilled True] ?s))"
    by blast
  from up c1 c3 c5 c6 show ?thesis by (intro conjI)
qed

subsection \<open>A sweep with batch size 0\<close>

lemma step_batchSize: "um_batchSize (mgr (step e s)) = um_batchSize (mgr s)"
proof (cases e)
  case (Settle k v)
  then show ?thesis using resume_shape[of "tasks s ! k" v k s] by auto
qed (simp_all add: enter_sweep_def)

lemma run_batchSize: "um_batchSize (mgr (run es s)) = um_batchSize (mgr s)"
  unfolding run_def by (induction es arbitrary: s) (simp_all add: step_batchSize)

lemma history_batchSize: "um_batchSize (mgr (history U strategy b S es)) = b"
  by (simp add: history_def run_batchSize at_rest_def new_UploadManager_def)

lemma settle_all_snoc: "settle_all k (vs @ [v]) s = step (Settle k v) (settle_all k vs s)"
  by (simp add: settle_all_def)

lemma swept_Suc: "swept (Suc n) s = step (Settle (length (tasks s)) (Fulfilled True)) (swept n s)"
proof -
  have "replicate (Suc n) (Fulfilled True) = replicate n (Fulfilled True) @ [Fulfilled True]"
    by (simp add: replicate_append_same)
  then show ?thesis by (simp only: swept_def settle_all_snoc)
qed

lemma swept_zero_batch_size:
  assumes b: "um_batchSize (mgr s) = 0" and f: "\<not> isUploading (mgr s)"
    and g: "getUnuploadedLogs (store s) = Inr logs" and ne: "logs \<noteq> []"
  shows "swept n s = s\<lparr>mgr := (mgr s)\<lparr>isUploading := True\<rparr>,
                      tasks := tasks s @ [if n = 0 then AwaitGetUnuploaded
                                          else if odd n then AwaitBatchUpload logs 0 []
                                          else AwaitBatchMark logs 0 []]\<rparr>"
proof (induction n)
  case 0
  show ?case using f by (simp add: swept_def settle_all_def enter_sweep_def)
next
  case (Suc n)
  have sl: "slice logs 0 0 = []" by (simp add: slice_def)
  have mk: "markAsUploaded [] (store s) = (Inr (), store s)" by (simp add: markAsUploaded_def)
  show ?case
  proof (cases "n = 0")
    case True
    then show ?thesis
      using Suc b g ne sl by (simp add: swept_Suc loop_head_def)
  next
    case False
    then show ?thesis
      using Suc b sl mk ne by (cases "odd n") (simp_all add: swept_Suc loop_head_def)
  qed
qed

text \<open>
  Claim C1 fails when the batch size is 0: the flag is left set for ever. Take a manager
  built with batch size 0, any sequence of events that leaves \<^verbatim>\<open>isUploading\<close> clear
  and un-uploaded records in the store, and then a forced upload. However many of the
  promises of this attempt settle successfully, the flag is still set and the attempt
  is still under way: it awaits \<^verbatim>\<open>uploadLogs\<close> or \<^verbatim>\<open>markAsUploaded\<close> on the empty batch,
  at loop index 0. The store is as it was, and every later forced upload or fire of
  the idle detector is dropped. Success is the only outcome these promises have when
  the uploader has a server URL: \<^verbatim>\<open>uploadLogs\<close> accepts the empty batch without a
  request.
\<close>

theorem flag_left_set_with_batch_size_zero:
  assumes "\<not> isUploading (mgr (history U strategy 0 S es))"
    and "getUnuploadedLogs (store (history U strategy 0 S es)) = Inr logs" and "logs \<noteq> []"
  shows "isUploading (mgr (swept n (history U strategy 0 S es)))
     \<and> tasks (swept n (history U strategy 0 S es))
         = tasks (history U strategy 0 S es)
           @ [if n = 0 then AwaitGetUnuploaded
              else if odd n then AwaitBatchUpload logs 0 [] else AwaitBatchMark logs 0 []]
     \<and> attempting (tasks (swept n (history U strategy 0 S es)) ! length (tasks (history U strategy 0 S es)))
     \<and> store (swept n (history U strategy 0 S es)) = store (history U strategy 0 S es)
     \<and> step ForceUpload (swept n (history U strategy 0 S es)) = swept n (history U strategy 0 S es)
     \<and> step IdleFire (swept n (history U strategy 0 S es)) = swept n (history U strategy 0 S es)
     \<and> (uploader_serverUrl U \<noteq> [] \<longrightarrow>
           fst (LogUploader_uploadLogs U [] w) \<and> requests (snd (LogUploader_uploadLogs U [] w)) = requests w)"
proof -
  let ?s = "history U strategy 0 S es"
  have b: "um_batchSize (mgr ?s) = 0" by (rule history_batchSize)
  note val = swept_zero_batch_size[OF b assms, of n]
  have c1: "isUploading (mgr (swept n ?s))" by (simp only: val) simp
  have c2: "tasks (swept n ?s) = tasks ?s @ [if n = 0 then AwaitGetUnuploaded
              else if odd n then AwaitBatchUpload logs 0 [] else AwaitBatchMark logs 0 []]"
    by (simp only: val) simp
  have c3: "attempting (tasks (swept n ?s) ! length (tasks ?s))"
    by (simp only: c2) simp
  have c4: "store (swept n ?s) = store ?s" by (simp only: val) simp
  have c5: "step ForceUpload (swept n ?s) = swept n ?s" using c1 by (simp add: enter_sweep_def)
  have c6: "step IdleFire (swept n ?s) = swept n ?s" using c1 by (simp add: enter_sweep_def)
  have c7: "uploader_serverUrl U \<noteq> [] \<longrightarrow>
           fst (LogUploader_uploadLogs U [] w) \<and> requests (snd (LogUploader_uploadLogs U [] w)) = requests w"
    by (simp add: LogUploader_uploadLogs_def)
  from c1 c2 c3 c4 c5 c6 c7 show ?thesis by (intro conjI)
qed

theorem flag_left_set_with_batch_size_zero_witness:
  "isUploading (mgr (swept 7 (history (new_LogUploader ''u'') Idle 0 \<lparr>db = True, rows = []\<rparr>
       [NewLog (entry ''a'' 1 False), Settle 0 (Fulfilled True)])))
   \<and> tasks (swept 7 (history (new_LogUploader ''u'') Idle 0 \<lparr>db = True, rows = []\<rparr>
       [NewLog (entry ''a'' 1 False), Settle 0 (Fulfilled True)]))
       = [Finished, AwaitBatchUpload [entry ''a'' 1 False] 0 []]
   \<and> store (swept 7 (history (new_LogUploader ''u'') Idle 0 \<lparr>db = True, rows = []\<rparr>
       [NewLog (entry ''a'' 1 False), Settle 0 (Fulfilled True)]))
       = \<lparr>db = True, rows = [entry ''a'' 1 False]\<rparr>
   \<and> fst (LogUploader_uploadLogs (new_LogUploader ''u'') [] (quiet_world [] (fetch_always FetchThrew)))"
proof -
  let ?es = "[NewLog (entry ''a'' 1 False), Settle 0 (Fulfilled True)]"
  let ?s = "history (new_LogUploader ''u'') Idle 0 \<lparr>db = True, rows = []\<rparr> ?es"
  have val: "?s = \<lparr>mgr = new_UploadManager (new_LogUploader ''u'') Idle 0,
                   store = \<lparr>db = True, rows = [entry ''a'' 1 False]\<rparr>, tasks = [Finished]\<rparr>"
    by (simp add: history_def run_def at_rest_def new_UploadManager_def saveLog_def return_from_def Let_def)
  have h1: "\<not> isUploading (mgr ?s)" by (simp only: val) (simp add: new_UploadManager_def)
  have h2: "getUnuploadedLogs (store ?s) = Inr [entry ''a'' 1 False]"
    by (simp only: val) (simp add: getUnuploadedLogs_def)
  have h3: "[entry ''a'' 1 False] \<noteq> []" by simp
  have u: "uploader_serverUrl (new_LogUploader ''u'') \<noteq> []" by (simp add: new_LogUploader_def)
  have t: "tasks ?s = [Finished]" and st: "store ?s = \<lparr>db = True, rows = [entry ''a'' 1 False]\<rparr>"
    by (simp_all only: val) simp_all
  note claim = flag_left_set_with_batch_size_zero[OF h1 h2 h3, of 7 "quiet_world [] (fetch_always FetchThrew)"]
  from claim have c1: "isUploading (mgr (swept 7 ?s))" by blast
  from claim have "tasks (swept 7 ?s) = tasks ?s @ [if (7::nat) = 0 then AwaitGetUnuploaded
              else if odd (7::nat) then AwaitBatchUpload [entry ''a'' 1 False] 0 []
              else AwaitBatchMark [entry ''a'' 1 False] 0 []]" by blast
  then have c2: "tasks (swept 7 ?s) = [Finished, AwaitBatchUpload [entry ''a'' 1 False] 0 []]"
    by (simp only: t) simp
  from claim have "store (swept 7 ?s) = store ?s" by blast
  then have c3: "store (swept 7 ?s) = \<lparr>db = True, rows = [entry ''a'' 1 False]\<rparr>" by (simp only: st)
  from claim u have c4: "fst (LogUploader_uploadLogs (new_LogUploader ''u'') [] (quiet_world [] (fetch_always FetchThrew)))"
    by blast
  from c1 c2 c3 c4 show ?thesis by (intro conjI)
qed

end
